theory Spec2Isabelle
  imports Complex_Main "HOL-Library.AList" "HOL-Library.Multiset"
begin

section \<open>Adaptive cluster expansion (class ClusterExpansion of solvers.py)\<close>

text \<open>
  Conventions of the embedding.
  \<^item> A cluster is a Python list of indices; indices are natural numbers.
  \<^item> Floating-point numbers are idealised as real numbers.
  \<^item> A small (cluster-sized) array is a list of rows. A full \<open>N \<times> N\<close> array, which the
    code only ever obtains from \<open>JfullFromCluster\<close>, \<open>SmeanField\<close> and \<open>np.zeros((N,N))\<close>
    and combines entrywise, is represented by its entry function together with
    \<open>N = len(coocMat)\<close>.
  \<^item> Every \<open>raise\<close> is a value \<open>Inl e\<close>; a function that mutates the memo dictionaries
    takes the registry and returns it, also when it raises (the dictionaries a caller
    passed in keep what was written before the exception).
\<close>

type_synonym cluster = "nat list"
type_synonym cid = "nat list"
type_synonym matrix = "real list list"
type_synonym fullmat = "nat \<Rightarrow> nat \<Rightarrow> real"

datatype error = Exception | KeyError | IndexError | AttributeError | TypeError

subsection \<open>numpy helpers on index lists\<close>

text \<open>\<open>np.unique\<close>: the sorted list of the distinct values.\<close>

definition unique :: "nat list \<Rightarrow> nat list" where
  "unique xs = sort (remdups xs)"

text \<open>\<open>np.intersect1d\<close> and \<open>np.union1d\<close>: sorted, distinct values.\<close>

definition intersect1d :: "nat list \<Rightarrow> nat list \<Rightarrow> nat list" where
  "intersect1d a b = unique (filter (\<lambda>x. x \<in> set b) a)"

definition union1d :: "nat list \<Rightarrow> nat list \<Rightarrow> nat list" where
  "union1d a b = unique (a @ b)"

text \<open>\<open>clusterID\<close>: \<open>tuple(np.sort(cluster))\<close>.\<close>

definition clusterID :: "cluster \<Rightarrow> cid" where
  "clusterID cluster = sort cluster"

subsection \<open>subsets\<close>

text \<open>
  \<open>subsets(set, size, sort=False)\<close>. The parameter \<open>set\<close> is \<open>st\<close> here and \<open>size\<close> is
  \<open>sz\<close>. \<open>rest = copy.copy(set); s = rest[0]; rest.remove(s)\<close> splits the list into its
  head and tail (\<open>remove\<close> deletes the first occurrence of \<open>s\<close>, which is at index 0);
  \<open>srest.append(s)\<close> puts \<open>s\<close> at the end of each subset of the second recursive call;
  \<open>np.sort(sub)\<close> sorts every row.
\<close>

function subsets :: "nat list \<Rightarrow> int \<Rightarrow> bool \<Rightarrow> error + nat list list" where
  "subsets st sz srt =
    (if length st \<noteq> length (unique st) then Inl Exception
     else if sz = int (length st) then Inr [st]
     else if sz > int (length st) then Inr []
     else if sz \<le> 0 then Inr []
     else if sz = 1 then Inr (map (\<lambda>s. [s]) st)
     else
       (case st of
          [] \<Rightarrow> Inl IndexError
        | s # rest \<Rightarrow>
           (case subsets rest sz False of
              Inl e \<Rightarrow> Inl e
            | Inr subrest1 \<Rightarrow>
               (case subsets rest (sz - 1) False of
                  Inl e \<Rightarrow> Inl e
                | Inr subrest2 \<Rightarrow>
                    (let sub = subrest1 @ map (\<lambda>srest. srest @ [s]) subrest2
                     in Inr (if srt then map sort sub else sub))))))"
  by pat_completeness auto
termination
  by (relation "measure (\<lambda>(st, sz, srt). length st)") auto

declare subsets.simps [simp del]

lemma unique_length_iff: "length st = length (unique st) \<longleftrightarrow> distinct st"
  by (metis unique_def length_sort length_remdups_eq remdups_id_iff_distinct)

lemma set_unique [simp]: "set (unique xs) = set xs"
  by (simp add: unique_def)

lemma distinct_unique [simp]: "distinct (unique xs)"
  by (simp add: unique_def)

lemma sorted_unique [simp]: "sorted (unique xs)"
  by (simp add: unique_def)

lemma length_unique [simp]: "distinct st \<Longrightarrow> length (unique st) = length st"
  by (simp add: unique_def)

lemma subsets_not_distinct: "\<not> distinct st \<Longrightarrow> subsets st sz srt = Inl Exception"
  by (subst subsets.simps) (simp add: unique_length_iff)

lemma subsets_full: "distinct st \<Longrightarrow> subsets st (int (length st)) srt = Inr [st]"
  by (subst subsets.simps) (simp add: unique_length_iff)

lemma subsets_empty:
  "distinct st \<Longrightarrow> sz > int (length st) \<or> sz < 0 \<or> (sz = 0 \<and> st \<noteq> []) \<Longrightarrow> subsets st sz srt = Inr []"
  by (subst subsets.simps) (auto simp add: unique_length_iff)

lemma subsets_one: "distinct st \<Longrightarrow> subsets st 1 srt = Inr (map (\<lambda>s. [s]) st)"
  by (subst subsets.simps) (cases st; auto simp add: unique_length_iff)

lemma subsets_rec:
  assumes "distinct (s # rest)" "1 < sz" "sz < int (length (s # rest))"
    "subsets rest sz False = Inr r1" "subsets rest (sz - 1) False = Inr r2"
  shows "subsets (s # rest) sz srt =
     Inr (if srt then map sort (r1 @ map (\<lambda>x. x @ [s]) r2) else r1 @ map (\<lambda>x. x @ [s]) r2)"
  using assms by (subst subsets.simps) (simp add: unique_length_iff)

text \<open>What the result of \<open>subsets st k\<close> satisfies for a duplicate-free \<open>st\<close> and \<open>0 < k\<close>.\<close>

definition subsets_post :: "nat list \<Rightarrow> nat \<Rightarrow> nat list list \<Rightarrow> bool" where
  "subsets_post st k r \<longleftrightarrow>
     (\<forall>x\<in>set r. distinct x \<and> length x = k) \<and> distinct (map set r) \<and>
     set (map set r) = {A. A \<subseteq> set st \<and> card A = k} \<and>
     length r = length st choose k"

lemma subsets_post_full: "distinct st \<Longrightarrow> subsets_post st (length st) [st]"
proof -
  assume d: "distinct st"
  have cs: "card (set st) = length st" using d by (rule distinct_card)
  have "{A. A \<subseteq> set st \<and> card A = length st} = {set st}"
  proof (intro set_eqI iffI)
    fix A assume "A \<in> {A. A \<subseteq> set st \<and> card A = length st}"
    then have "A \<subseteq> set st" "card A = card (set st)" using cs by auto
    then have "A = set st" by (intro card_subset_eq) auto
    then show "A \<in> {set st}" by simp
  next
    fix A assume "A \<in> {set st}"
    then show "A \<in> {A. A \<subseteq> set st \<and> card A = length st}" using cs by simp
  qed
  moreover have "length st choose length st = 1" by simp
  ultimately show ?thesis unfolding subsets_post_def using d by simp
qed

lemma subsets_post_one: "distinct st \<Longrightarrow> subsets_post st 1 (map (\<lambda>s. [s]) st)"
proof -
  assume d: "distinct st"
  have m: "map set (map (\<lambda>s. [s]) st) = map (\<lambda>s. {s}) st" by simp
  have a: "distinct (map (\<lambda>s. {s}) st)"
    using d by (simp add: distinct_map inj_on_def)
  have b: "(\<lambda>s. {s}) ` set st = {A. A \<subseteq> set st \<and> card A = 1}"
  proof (intro set_eqI iffI)
    fix A assume "A \<in> (\<lambda>s. {s}) ` set st"
    then show "A \<in> {A. A \<subseteq> set st \<and> card A = 1}" by auto
  next
    fix A assume "A \<in> {A. A \<subseteq> set st \<and> card A = 1}"
    then have "A \<subseteq> set st" "card A = 1" by auto
    then obtain x where "A = {x}" by (auto simp: card_1_singleton_iff)
    then show "A \<in> (\<lambda>s. {s}) ` set st" using \<open>A \<subseteq> set st\<close> by auto
  qed
  have c: "\<forall>x\<in>set (map (\<lambda>s. [s]) st). distinct x \<and> length x = 1" by simp
  show ?thesis unfolding subsets_post_def m using a b c by simp
qed

lemma subsets_post_empty: "k > length st \<Longrightarrow> distinct st \<Longrightarrow> subsets_post st k []"
proof -
  assume k: "k > length st"
  have "card A \<noteq> k" if "A \<subseteq> set st" for A
  proof -
    have "card A \<le> card (set st)" using that by (simp add: card_mono)
    also have "\<dots> \<le> length st" by (rule card_length)
    finally show ?thesis using k by simp
  qed
  then have "{A. A \<subseteq> set st \<and> card A = k} = {}" by auto
  then show ?thesis unfolding subsets_post_def using k by simp
qed

lemma subsets_post_step:
  assumes d: "distinct (s # rest)" and k: "0 < k"
    and r1: "subsets_post rest (Suc k) r1" and r2: "subsets_post rest k r2"
  shows "subsets_post (s # rest) (Suc k) (r1 @ map (\<lambda>x. x @ [s]) r2)"
proof -
  have s: "s \<notin> set rest" using d by simp
  have e1: "set ` set r1 = {A. A \<subseteq> set rest \<and> card A = Suc k}"
    using r1 unfolding subsets_post_def by simp
  have e2: "set ` set r2 = {A. A \<subseteq> set rest \<and> card A = k}"
    using r2 unfolding subsets_post_def by simp
  have in1: "\<And>x. x \<in> set r1 \<Longrightarrow> set x \<subseteq> set rest \<and> card (set x) = Suc k"
    using e1 by blast
  have in2: "\<And>x. x \<in> set r2 \<Longrightarrow> set x \<subseteq> set rest \<and> card (set x) = k"
    using e2 by blast
  have ns: "\<And>x. x \<in> set r2 \<Longrightarrow> s \<notin> set x"
    using in2 s by blast
  have a: "\<forall>x\<in>set (r1 @ map (\<lambda>x. x @ [s]) r2). distinct x \<and> length x = Suc k"
    using r1 r2 ns unfolding subsets_post_def by auto
  have inj: "inj_on (insert s) (set ` set r2)"
  proof (rule inj_onI)
    fix A B assume AB: "A \<in> set ` set r2" "B \<in> set ` set r2" "insert s A = insert s B"
    have "s \<notin> A" "s \<notin> B" using AB ns by auto
    then show "A = B" using AB(3) by (simp add: insert_ident)
  qed
  have b: "distinct (map set (r1 @ map (\<lambda>x. x @ [s]) r2))"
  proof -
    have "distinct (map set r1)" using r1 unfolding subsets_post_def by simp
    moreover have "distinct (map (\<lambda>x. insert s (set x)) r2)"
    proof -
      have "distinct (map set r2)" using r2 unfolding subsets_post_def by simp
      then have "distinct (map (insert s) (map set r2))"
        using inj by (subst distinct_map) simp
      then show ?thesis by (simp add: comp_def)
    qed
    moreover have "set ` set r1 \<inter> (\<lambda>x. insert s (set x)) ` set r2 = {}"
      using in1 s by auto
    ultimately show ?thesis by (simp add: comp_def)
  qed
  have c: "set (map set (r1 @ map (\<lambda>x. x @ [s]) r2)) = {A. A \<subseteq> set (s # rest) \<and> card A = Suc k}"
  proof -
    have "{A. A \<subseteq> insert s (set rest) \<and> card A = Suc k} =
          {A. A \<subseteq> set rest \<and> card A = Suc k} \<union> insert s ` {A. A \<subseteq> set rest \<and> card A = k}"
    proof (intro set_eqI iffI)
      fix A assume "A \<in> {A. A \<subseteq> insert s (set rest) \<and> card A = Suc k}"
      then have A: "A \<subseteq> insert s (set rest)" "card A = Suc k" by auto
      have fA: "finite A" using A(1) by (meson finite.insertI finite_set finite_subset)
      show "A \<in> {A. A \<subseteq> set rest \<and> card A = Suc k} \<union> insert s ` {A. A \<subseteq> set rest \<and> card A = k}"
      proof (cases "s \<in> A")
        case True
        then have "A = insert s (A - {s})" by auto
        moreover have "A - {s} \<subseteq> set rest" using A(1) by auto
        moreover have "card (A - {s}) = k" using True A(2) fA by simp
        ultimately show ?thesis by blast
      next
        case False
        then show ?thesis using A by auto
      qed
    next
      fix A assume "A \<in> {A. A \<subseteq> set rest \<and> card A = Suc k} \<union> insert s ` {A. A \<subseteq> set rest \<and> card A = k}"
      then consider "A \<subseteq> set rest" "card A = Suc k"
        | B where "A = insert s B" "B \<subseteq> set rest" "card B = k" by auto
      then show "A \<in> {A. A \<subseteq> insert s (set rest) \<and> card A = Suc k}"
      proof cases
        case 1
        then show ?thesis by auto
      next
        case 2
        have "finite B" using 2(2) finite_subset by auto
        moreover have "s \<notin> B" using 2(2) s by auto
        ultimately show ?thesis using 2 by auto
      qed
    qed
    moreover have "set (map set (r1 @ map (\<lambda>x. x @ [s]) r2)) = set ` set r1 \<union> insert s ` (set ` set r2)"
      by (auto simp: image_iff)
    ultimately show ?thesis using e1 e2 by simp
  qed
  have dl: "length (r1 @ map (\<lambda>x. x @ [s]) r2) = length (s # rest) choose Suc k"
    using r1 r2 unfolding subsets_post_def by simp
  show ?thesis unfolding subsets_post_def using a b c dl by blast
qed

lemma subsets_post_sort: "subsets_post st k r \<Longrightarrow> subsets_post st k (map sort r)"
  unfolding subsets_post_def by (simp add: comp_def)

lemma subsets_Inr:
  "distinct st \<Longrightarrow> 0 < k \<Longrightarrow> \<exists>r. subsets st (int k) srt = Inr r \<and> subsets_post st k r"
proof (induction st arbitrary: k srt)
  case Nil
  then show ?case using subsets_empty[of "[]" "int k" srt] subsets_post_empty[of "[]" k] by simp
next
  case (Cons s rest)
  consider "k = length (s # rest)" | "k > length (s # rest)" | "k = 1" "k < length (s # rest)"
    | "1 < k" "k < length (s # rest)"
    using Cons.prems(2) by linarith
  then show ?case
  proof cases
    case 1
    then show ?thesis using subsets_full[OF Cons.prems(1), of srt] subsets_post_full[OF Cons.prems(1)] by simp
  next
    case 2
    then show ?thesis using subsets_empty[OF Cons.prems(1), of "int k" srt] subsets_post_empty[OF _ Cons.prems(1), of k] by simp
  next
    case 3
    then show ?thesis using subsets_one[OF Cons.prems(1), of srt] subsets_post_one[OF Cons.prems(1)] by simp
  next
    case 4
    then obtain k' where k': "k = Suc k'" "0 < k'" by (cases k) auto
    have dr: "distinct rest" using Cons.prems(1) by simp
    obtain r1 where r1: "subsets rest (int k) False = Inr r1" "subsets_post rest k r1"
      using Cons.IH[OF dr Cons.prems(2), of False] by blast
    obtain r2 where r2: "subsets rest (int k') False = Inr r2" "subsets_post rest k' r2"
      using Cons.IH[OF dr k'(2), of False] by blast
    have r2': "subsets rest (int k - 1) False = Inr r2" using r2(1) k'(1) by simp
    define R where "R = r1 @ map (\<lambda>x. x @ [s]) r2"
    have eq: "subsets (s # rest) (int k) srt = Inr (if srt then map sort R else R)"
      unfolding R_def using subsets_rec[OF Cons.prems(1) _ _ r1(1) r2'] 4 by simp
    have post: "subsets_post (s # rest) k R"
      unfolding R_def using subsets_post_step[OF Cons.prems(1) k'(2)] r1(2) r2(2) k'(1) by simp
    show ?thesis
    proof (cases srt)
      case True
      then show ?thesis using eq subsets_post_sort[OF post] by simp
    next
      case False
      then show ?thesis using eq post by simp
    qed
  qed
qed

text \<open>
  Claim C5 (amended). For a duplicate-free list \<open>S\<close> and \<open>0 < k \<le> |S|\<close>, \<open>subsets(S, k)\<close>
  returns exactly \<open>C(|S|, k)\<close> lists, pairwise different as index sets, whose index
  sets are exactly the subsets of \<open>S\<close> with \<open>k\<close> elements. It returns the empty list for
  \<open>k < 0\<close>, for \<open>k > |S|\<close>, and for \<open>k = 0\<close> when \<open>S\<close> is not empty; \<open>[S]\<close> for
  \<open>k = |S|\<close> (also for \<open>k = 0\<close> and the empty list, where the size test comes before the
  test \<open>size \<le> 0\<close>); the singletons for \<open>k = 1\<close>. A list with a duplicate raises.
  This holds with and without the \<open>sort\<close> flag.
\<close>

theorem subsets_enumeration:
  "(distinct S \<longrightarrow>
      (0 < k \<and> k \<le> int (length S) \<longrightarrow>
         (\<exists>r. subsets S k srt = Inr r \<and> length r = length S choose nat k \<and>
              distinct (map set r) \<and> set (map set r) = {A. A \<subseteq> set S \<and> card A = nat k})) \<and>
      (k < 0 \<or> k > int (length S) \<or> (k = 0 \<and> S \<noteq> []) \<longrightarrow> subsets S k srt = Inr []) \<and>
      (k = int (length S) \<longrightarrow> subsets S k srt = Inr [S]) \<and>
      (k = 1 \<longrightarrow> subsets S k srt = Inr (map (\<lambda>s. [s]) S))) \<and>
   (\<not> distinct S \<longrightarrow> subsets S k srt = Inl Exception)"
proof (intro conjI impI)
  assume d: "distinct S" and k: "0 < k \<and> k \<le> int (length S)"
  then have "0 < nat k" by simp
  from subsets_Inr[OF d this, of srt] k
  show "\<exists>r. subsets S k srt = Inr r \<and> length r = length S choose nat k \<and>
              distinct (map set r) \<and> set (map set r) = {A. A \<subseteq> set S \<and> card A = nat k}"
    unfolding subsets_post_def by auto
next
  assume "distinct S" "k < 0 \<or> k > int (length S) \<or> (k = 0 \<and> S \<noteq> [])"
  then show "subsets S k srt = Inr []" using subsets_empty by blast
next
  assume "distinct S" "k = int (length S)"
  then show "subsets S k srt = Inr [S]" using subsets_full by simp
next
  assume "distinct S" "k = 1"
  then show "subsets S k srt = Inr (map (\<lambda>s. [s]) S)" using subsets_one by simp
next
  assume "\<not> distinct S"
  then show "subsets S k srt = Inl Exception" by (rule subsets_not_distinct)
qed

theorem subsets_enumeration_witness:
  "(\<exists>r. subsets [0, 1, 2] 2 False = Inr r \<and> length r = length [0, 1, 2 :: nat] choose nat 2 \<and>
        distinct (map set r) \<and> set (map set r) = {A. A \<subseteq> set [0, 1, 2] \<and> card A = nat 2}) \<and>
   subsets [0, 1] 5 False = Inr [] \<and>
   subsets [0, 1] 0 False = Inr [] \<and>
   subsets [0, 1] 2 False = Inr [[0, 1]] \<and>
   subsets [0, 1] 1 False = Inr [[0], [1]] \<and>
   subsets [0, 0] 1 False = Inl Exception"
proof -
  have "\<exists>r. subsets [0, 1, 2] 2 False = Inr r \<and> length r = length [0, 1, 2 :: nat] choose nat 2 \<and>
        distinct (map set r) \<and> set (map set r) = {A. A \<subseteq> set [0, 1, 2] \<and> card A = nat 2}"
    using subsets_enumeration[of "[0, 1, 2]" 2 False] by simp
  moreover have "subsets [0, 1] 5 False = Inr []"
    using subsets_enumeration[of "[0, 1]" 5 False] by simp
  moreover have "subsets [0, 1] 0 False = Inr []"
    using subsets_enumeration[of "[0, 1]" 0 False] by simp
  moreover have "subsets [0, 1] 2 False = Inr [[0, 1]]"
    using subsets_enumeration[of "[0, 1]" 2 False] by simp
  moreover have "subsets [0, 1] 1 False = Inr [[0], [1]]"
    using subsets_enumeration[of "[0, 1]" 1 False] by simp
  moreover have "subsets [0, 0] 1 False = Inl Exception"
    using subsets_enumeration[of "[0, 0]" 1 False] by simp
  ultimately show ?thesis by blast
qed

text \<open>
  Claim C5 as stated says that \<open>k \<le> 0\<close> always gives the empty list. For the empty
  list and \<open>k = 0\<close> the code returns the list holding the empty list.
\<close>

theorem subsets_empty_zero_counterexample:
  "subsets [] 0 False = Inr [[]] \<and> subsets [] 0 False \<noteq> Inr []"
  by (subst subsets.simps, simp add: unique_def)+

subsection \<open>The absent collaborators\<close>

text \<open>
  The module \<open>meanFieldIsing\<close> and the functions \<open>SmeanField\<close>, \<open>convert_params\<close> and
  \<open>squareform\<close> (names that solvers.py gets from its star imports) are not part of
  solvers.py. They are parameters of the model, collected in one record. A function
  that takes a full array takes its size \<open>N\<close> and its entry function.

  The record also holds the attribute \<open>coocurrence_matrix\<close> of the solver object, which
  \<open>solve\<close> reads at line 1140. No class of solvers.py defines it (line 1140 is the only
  place where the name occurs), so for an object that only the constructor has set up
  it is \<open>None\<close> and reading it raises AttributeError; it is \<open>Some f\<close> only when a caller
  has assigned a function \<open>f\<close> to the object.
\<close>

record ext =
  coocCluster :: "matrix \<Rightarrow> cluster \<Rightarrow> matrix"
  findJmatrixAnalytic_CoocMat :: "matrix \<Rightarrow> real \<Rightarrow> real option \<Rightarrow> matrix"
  JfullFromCluster :: "matrix \<Rightarrow> cluster \<Rightarrow> nat \<Rightarrow> fullmat"
  analyticEntropy :: "matrix \<Rightarrow> real"
  symmetrizeUsingUpper :: "matrix \<Rightarrow> matrix"
  SmeanField :: "cluster \<Rightarrow> matrix \<Rightarrow> real \<Rightarrow> real option \<Rightarrow> real \<times> fullmat"
  coocurrence_matrix :: "(matrix \<Rightarrow> matrix) option"
  zeroDiag :: "nat \<Rightarrow> fullmat \<Rightarrow> fullmat"
  squareform :: "nat \<Rightarrow> fullmat \<Rightarrow> real list"
  convert_params :: "real list \<Rightarrow> real list \<Rightarrow> string \<Rightarrow> bool \<Rightarrow> real list"

subsection \<open>Arrays\<close>

text \<open>\<open>coocMat[i,j]\<close>: numpy raises IndexError out of range.\<close>

definition cooc_at :: "matrix \<Rightarrow> nat \<Rightarrow> nat \<Rightarrow> error + real" where
  "cooc_at M i j =
     (if i < length M \<and> j < length (M ! i) then Inr (M ! i ! j) else Inl IndexError)"

text \<open>\<open>np.diag\<close> of a two-dimensional array (its diagonal) and of a vector (the diagonal matrix).\<close>

definition diag_of :: "matrix \<Rightarrow> real list" where
  "diag_of M = map (\<lambda>i. M ! i ! i) (filter (\<lambda>i. i < length (M ! i)) [0..<length M])"

definition diag_matrix :: "real list \<Rightarrow> matrix" where
  "diag_matrix h = map (\<lambda>i. map (\<lambda>j. if i = j then h ! i else 0) [0..<length h]) [0..<length h]"

text \<open>Entrywise operations on full arrays; \<open>np.zeros((N,N))\<close>.\<close>

definition msub :: "fullmat \<Rightarrow> fullmat \<Rightarrow> fullmat" where
  "msub A B = (\<lambda>i j. A i j - B i j)"

definition madd :: "fullmat \<Rightarrow> fullmat \<Rightarrow> fullmat" where
  "madd A B = (\<lambda>i j. A i j + B i j)"

definition mneg :: "fullmat \<Rightarrow> fullmat" where
  "mneg A = (\<lambda>i j. - A i j)"

definition zeros :: fullmat where
  "zeros = (\<lambda>i j. 0)"

subsection \<open>S and Sindependent\<close>

text \<open>
  \<open>S(cluster, coocMat, deltaJdict, useAnalyticResults=False, priorLmbda=0., numSamples=None)\<close>.
  The parameter \<open>deltaJdict\<close> is never read and is left out, as are the unused locals
  \<open>Jii1\<close> and \<open>Jjj1\<close>. \<open>Jinit\<close> is always \<open>None\<close>.
\<close>

definition S :: "ext \<Rightarrow> cluster \<Rightarrow> matrix \<Rightarrow> bool \<Rightarrow> real \<Rightarrow> real option
    \<Rightarrow> error + (real \<times> fullmat)" where
  "S E cluster coocMat useAnalyticResults priorLmbda numSamples =
    (if length cluster = 0 then Inl Exception
     else
      (case
        (if length cluster = 1 \<and> useAnalyticResults then
           (case cooc_at coocMat (cluster ! 0) (cluster ! 0) of
              Inl e \<Rightarrow> Inl e
            | Inr p \<Rightarrow> Inr [[- ln (p / (1 - p))]])
         else if length cluster = 2 \<and> useAnalyticResults then
           (let i = min (cluster ! 0) (cluster ! 1);
                j = max (cluster ! 0) (cluster ! 1)
            in case cooc_at coocMat i i of
                 Inl e \<Rightarrow> Inl e
               | Inr p_i \<Rightarrow>
                  (case cooc_at coocMat j j of
                     Inl e \<Rightarrow> Inl e
                   | Inr p_j \<Rightarrow>
                      (case cooc_at coocMat i j of
                         Inl e \<Rightarrow> Inl e
                       | Inr p_ij \<Rightarrow>
                          (let Jii = - ln ((p_i - p_ij) / (1 - p_i - p_j + p_ij));
                               Jjj = - ln ((p_j - p_ij) / (1 - p_i - p_j + p_ij));
                               Jij = - ln p_ij + ln (p_i - p_ij) + ln (p_j - p_ij)
                                      - ln (1 - p_i - p_j + p_ij)
                           in Inr [[Jii, 0.5 * Jij], [0.5 * Jij, Jjj]]))))
         else
           Inr (findJmatrixAnalytic_CoocMat E (coocCluster E coocMat cluster)
                  priorLmbda numSamples))
       of
         Inl e \<Rightarrow> Inl e
       | Inr J \<Rightarrow>
          (let N = length coocMat;
               Jfull = JfullFromCluster E J cluster N;
               ent = analyticEntropy E J
           in Inr (ent, Jfull))))"

definition Sindependent :: "ext \<Rightarrow> cluster \<Rightarrow> matrix \<Rightarrow> real \<times> fullmat" where
  "Sindependent E cluster coocMat =
    (let coocMatCluster = symmetrizeUsingUpper E (coocCluster E coocMat cluster);
         freqs = diag_of coocMatCluster;
         h = map (\<lambda>f. - ln (f / (1 - f))) freqs;
         Jind = diag_matrix h;
         Sinds = map (\<lambda>f. - f * ln f - (1 - f) * ln (1 - f)) freqs;
         Sind = sum_list Sinds;
         Nfull = length coocMat;
         Jfull = JfullFromCluster E Jind cluster Nfull
     in (Sind, Jfull))"

subsection \<open>The registry\<close>

text \<open>
  The two memo dictionaries, keyed by \<open>clusterID\<close>. The field \<open>events\<close> is not in the
  code: it records, in order, the calls of the entropy routines and the writes to the
  dictionaries, so that claims about recomputation and about the order of writes can
  be stated.
\<close>

datatype event = CallS cluster | CallSindependent cluster | CallSmeanField cluster | Store cid

record registry =
  deltaSdict :: "cid \<rightharpoonup> real"
  deltaJdict :: "cid \<rightharpoonup> fullmat"
  events :: "event list"

definition empty_registry :: registry where
  "empty_registry = \<lparr>deltaSdict = Map.empty, deltaJdict = Map.empty, events = []\<rparr>"

definition log_event :: "event \<Rightarrow> registry \<Rightarrow> registry" where
  "log_event e R = R\<lparr>events := events R @ [e]\<rparr>"

text \<open>A \<open>for\<close> loop whose body may raise and may write to the registry.\<close>

fun for_loop :: "('a \<Rightarrow> 'b \<Rightarrow> registry \<Rightarrow> (error + 'b) \<times> registry) \<Rightarrow> 'a list \<Rightarrow> 'b \<Rightarrow> registry
    \<Rightarrow> (error + 'b) \<times> registry" where
  "for_loop body [] acc R = (Inr acc, R)"
| "for_loop body (x # xs) acc R =
     (case body x acc R of
        (Inl e, R') \<Rightarrow> (Inl e, R')
      | (Inr acc', R') \<Rightarrow> for_loop body xs acc' R')"

lemma for_loop_cong [fundef_cong]:
  "xs = ys \<Longrightarrow> acc = acc' \<Longrightarrow> R = R' \<Longrightarrow> (\<And>x a s. x \<in> set ys \<Longrightarrow> f x a s = g x a s)
    \<Longrightarrow> for_loop f xs acc R = for_loop g ys acc' R'"
proof (induction ys arbitrary: xs acc acc' R R')
  case Nil
  then show ?case by simp
next
  case (Cons y ys)
  then show ?case by (auto split: prod.splits sum.splits)
qed

lemma subsets_length:
  assumes "subsets st (int k) srt = Inr r" "0 < k" "x \<in> set r"
  shows "length x = k \<and> distinct x \<and> set x \<subseteq> set st"
proof -
  have d: "distinct st" using assms(1) subsets_not_distinct[of st "int k" srt] by auto
  from subsets_Inr[OF d assms(2), of srt] assms(1) have p: "subsets_post st k r" by auto
  then have "set x \<in> {A. A \<subseteq> set st \<and> card A = k}" using assms(3)
    unfolding subsets_post_def by (metis image_eqI list.set_map)
  then show ?thesis using p assms(3) unfolding subsets_post_def by auto
qed

subsection \<open>deltaS ("Algorithm 1")\<close>

text \<open>
  \<open>deltaS(cluster, coocMat, deltaSdict, deltaJdict, verbose, meanFieldRef, priorLmbda,
  numSamples, independentRef, meanFieldPriorLmbda)\<close>. The two dictionaries are the
  registry \<open>R\<close> (\<open>None\<close> is the empty dictionary); \<open>verbose\<close> only prints and is left out.
  \<open>range(len(cluster)-1, 0, -1)\<close> is \<open>rev [1..<length cluster]\<close>.
\<close>

function deltaS :: "ext \<Rightarrow> cluster \<Rightarrow> matrix \<Rightarrow> registry \<Rightarrow> bool \<Rightarrow> real \<Rightarrow> real option \<Rightarrow> bool
    \<Rightarrow> real option \<Rightarrow> (error + (real \<times> fullmat)) \<times> registry" where
  "deltaS E cluster coocMat R meanFieldRef priorLmbda numSamples independentRef meanFieldPriorLmbda =
    (if (independentRef \<and> meanFieldRef) \<or> \<not> (independentRef \<or> meanFieldRef)
     then (Inl Exception, R)
     else
      (let mfpl = (case meanFieldPriorLmbda of None \<Rightarrow> priorLmbda | Some l \<Rightarrow> l);
           cID = clusterID cluster
       in case deltaSdict R cID of
            Some dS \<Rightarrow>
              (case deltaJdict R cID of
                 None \<Rightarrow> (Inl KeyError, R)
               | Some dJ \<Rightarrow> (Inr (dS, dJ), R))
          | None \<Rightarrow>
              (case S E cluster coocMat False priorLmbda numSamples of
                 Inl e \<Rightarrow> (Inl e, log_event (CallS cluster) R)
               | Inr (ent, Jfull) \<Rightarrow>
                  (let R1 = log_event (CallS cluster) R;
                       (start, R2) =
                         (if independentRef then
                            (let (S0cluster, J0cluster) = Sindependent E cluster coocMat
                             in ((ent - S0cluster, msub Jfull J0cluster),
                                 log_event (CallSindependent cluster) R1))
                          else if meanFieldRef then
                            (let (S0cluster, J0cluster) =
                                   SmeanField E cluster coocMat mfpl numSamples
                             in ((ent - S0cluster, msub Jfull J0cluster),
                                 log_event (CallSmeanField cluster) R1))
                          else ((ent, Jfull), R1))
                   in case
                        for_loop
                          (\<lambda>size acc Ra.
                             case subsets cluster (int size) False of
                               Inl e \<Rightarrow> (Inl e, Ra)
                             | Inr subclusters \<Rightarrow>
                                 for_loop
                                   (\<lambda>subcluster (deltaScluster, deltaJcluster) Rb.
                                      case deltaS E subcluster coocMat Rb meanFieldRef priorLmbda
                                             numSamples independentRef (Some mfpl) of
                                        (Inl e, Rc) \<Rightarrow> (Inl e, Rc)
                                      | (Inr (deltaSsubcluster, deltaJsubcluster), Rc) \<Rightarrow>
                                          (Inr (deltaScluster - deltaSsubcluster,
                                                msub deltaJcluster deltaJsubcluster), Rc))
                                   subclusters acc Ra)
                          (rev [1..<length cluster]) start R2
                      of
                        (Inl e, R3) \<Rightarrow> (Inl e, R3)
                      | (Inr (deltaScluster, deltaJcluster), R3) \<Rightarrow>
                          (Inr (deltaScluster, deltaJcluster),
                           log_event (Store cID)
                             (R3\<lparr>deltaSdict := (deltaSdict R3)(cID \<mapsto> deltaScluster),
                                 deltaJdict := (deltaJdict R3)(cID \<mapsto> deltaJcluster)\<rparr>))))))"
  by pat_completeness auto
termination
proof (relation "measure (\<lambda>(E, cluster, coocMat, R, mf, pl, ns, ind, mp). length cluster)")
  show "wf (measure (\<lambda>(E, cluster, coocMat, R, mf, pl, ns, ind, mp). length cluster))" by simp
next
  fix E :: ext and cluster :: cluster and coocMat :: matrix and R :: registry
    and meanFieldRef :: bool and priorLmbda :: real and numSamples :: "real option"
    and independentRef :: bool and meanFieldPriorLmbda :: "real option"
    and mfpl cID and size :: nat and subclusters subcluster and Rb :: registry
  fix x2 x y xa ya x1 x2a acc Ra xb xc yb 
  assume "size \<in> set (rev [1..<length cluster])"
    and "subsets cluster (int size) False = Inr subclusters"
    and "subcluster \<in> set subclusters"
  then show "((E, subcluster, coocMat, Rb, meanFieldRef, priorLmbda, numSamples, independentRef,
               Some mfpl),
              (E, cluster, coocMat, R, meanFieldRef, priorLmbda, numSamples, independentRef,
               meanFieldPriorLmbda))
             \<in> measure (\<lambda>(E, cluster, coocMat, R, mf, pl, ns, ind, mp). length cluster)"
    using subsets_length[of cluster size False subclusters subcluster] by auto
qed

declare deltaS.simps [simp del]

subsection \<open>deltaS with its fixed arguments collected\<close>

text \<open>
  The arguments that \<open>deltaS\<close> hands on unchanged to its recursive calls, with
  \<open>meanFieldPriorLmbda\<close> already replaced by its default.
\<close>

record params =
  p_ext :: ext
  p_cooc :: matrix
  p_mf :: bool
  p_lmbda :: real
  p_num :: "real option"
  p_ind :: bool
  p_mflmbda :: real

definition dS :: "params \<Rightarrow> cluster \<Rightarrow> registry \<Rightarrow> (error + (real \<times> fullmat)) \<times> registry" where
  "dS P c R = deltaS (p_ext P) c (p_cooc P) R (p_mf P) (p_lmbda P) (p_num P) (p_ind P)
                (Some (p_mflmbda P))"

definition mk_params :: "ext \<Rightarrow> matrix \<Rightarrow> bool \<Rightarrow> real \<Rightarrow> real option \<Rightarrow> bool \<Rightarrow> real option \<Rightarrow> params" where
  "mk_params E coocMat meanFieldRef priorLmbda numSamples independentRef meanFieldPriorLmbda =
     \<lparr>p_ext = E, p_cooc = coocMat, p_mf = meanFieldRef, p_lmbda = priorLmbda,
      p_num = numSamples, p_ind = independentRef,
      p_mflmbda = (case meanFieldPriorLmbda of None \<Rightarrow> priorLmbda | Some l \<Rightarrow> l)\<rparr>"

definition good_flags :: "params \<Rightarrow> bool" where
  "good_flags P \<longleftrightarrow> p_ind P \<noteq> p_mf P"

definition fullS :: "params \<Rightarrow> cluster \<Rightarrow> error + (real \<times> fullmat)" where
  "fullS P c = S (p_ext P) c (p_cooc P) False (p_lmbda P) (p_num P)"

definition refS :: "params \<Rightarrow> cluster \<Rightarrow> real \<times> fullmat" where
  "refS P c = (if p_ind P then Sindependent (p_ext P) c (p_cooc P)
               else SmeanField (p_ext P) c (p_cooc P) (p_mflmbda P) (p_num P))"

definition ref_event :: "params \<Rightarrow> cluster \<Rightarrow> event" where
  "ref_event P c = (if p_ind P then CallSindependent c else CallSmeanField c)"

definition store :: "cid \<Rightarrow> real \<Rightarrow> fullmat \<Rightarrow> registry \<Rightarrow> registry" where
  "store k a b R = log_event (Store k)
     (R\<lparr>deltaSdict := (deltaSdict R)(k \<mapsto> a), deltaJdict := (deltaJdict R)(k \<mapsto> b)\<rparr>)"

definition sub_step :: "params \<Rightarrow> cluster \<Rightarrow> real \<times> fullmat \<Rightarrow> registry
    \<Rightarrow> (error + (real \<times> fullmat)) \<times> registry" where
  "sub_step P = (\<lambda>subcluster (a, b) Rb.
     case dS P subcluster Rb of
       (Inl e, Rc) \<Rightarrow> (Inl e, Rc)
     | (Inr (x, y), Rc) \<Rightarrow> (Inr (a - x, msub b y), Rc))"

definition size_step :: "params \<Rightarrow> cluster \<Rightarrow> nat \<Rightarrow> real \<times> fullmat \<Rightarrow> registry
    \<Rightarrow> (error + (real \<times> fullmat)) \<times> registry" where
  "size_step P c = (\<lambda>size acc Ra.
     case subsets c (int size) False of
       Inl e \<Rightarrow> (Inl e, Ra)
     | Inr subclusters \<Rightarrow> for_loop (sub_step P) subclusters acc Ra)"

lemma deltaS_default_lmbda:
  "deltaS E c M R mf pl ns ind None = deltaS E c M R mf pl ns ind (Some pl)"
  by (simp only: deltaS.simps[of E c M R mf pl ns ind None]
        deltaS.simps[of E c M R mf pl ns ind "Some pl"] option.case)

lemma deltaS_dS:
  "deltaS E c M R mf pl ns ind mp = dS (mk_params E M mf pl ns ind mp) c R"
  unfolding dS_def mk_params_def
  by (cases mp) (simp_all add: deltaS_default_lmbda)

lemma dS_unfold:
  "dS P c R =
    (if \<not> good_flags P then (Inl Exception, R)
     else case deltaSdict R (clusterID c) of
        Some v \<Rightarrow>
          (case deltaJdict R (clusterID c) of
             None \<Rightarrow> (Inl KeyError, R)
           | Some j \<Rightarrow> (Inr (v, j), R))
      | None \<Rightarrow>
          (case fullS P c of
             Inl e \<Rightarrow> (Inl e, log_event (CallS c) R)
           | Inr (ent, Jf) \<Rightarrow>
              (case for_loop (size_step P c) (rev [1..<length c])
                      (ent - fst (refS P c), msub Jf (snd (refS P c)))
                      (log_event (ref_event P c) (log_event (CallS c) R)) of
                 (Inl e, R3) \<Rightarrow> (Inl e, R3)
               | (Inr (a, b), R3) \<Rightarrow> (Inr (a, b), store (clusterID c) a b R3))))"
proof -
  have step: "(\<lambda>size acc Ra.
           case subsets c (int size) False of
             Inl e \<Rightarrow> (Inl e, Ra)
           | Inr subclusters \<Rightarrow>
               for_loop
                 (\<lambda>subcluster (deltaScluster, deltaJcluster) Rb.
                    case deltaS (p_ext P) subcluster (p_cooc P) Rb (p_mf P) (p_lmbda P)
                           (p_num P) (p_ind P) (Some (p_mflmbda P)) of
                      (Inl e, Rc) \<Rightarrow> (Inl e, Rc)
                    | (Inr (deltaSsubcluster, deltaJsubcluster), Rc) \<Rightarrow>
                        (Inr (deltaScluster - deltaSsubcluster,
                              msub deltaJcluster deltaJsubcluster), Rc))
                 subclusters acc Ra) = size_step P c"
    unfolding size_step_def sub_step_def dS_def by simp
  show ?thesis
    unfolding dS_def
    apply (subst deltaS.simps)
    apply (simp only: Let_def option.case step)
    apply (cases "p_ind P"; cases "p_mf P")
    apply (simp_all add: good_flags_def fullS_def refS_def ref_event_def store_def
        split: option.splits sum.splits prod.splits)
    done
qed

subsection \<open>What a call may change in the registry\<close>

text \<open>
  \<open>frame n R R'\<close>: every entropy entry of \<open>R\<close> is kept with its value, no interaction entry
  is removed, the history is extended, and every new entropy key has at most \<open>n\<close> indices.
\<close>

definition frame :: "nat \<Rightarrow> registry \<Rightarrow> registry \<Rightarrow> bool" where
  "frame n R R' \<longleftrightarrow>
     map_le (deltaSdict R) (deltaSdict R') \<and>
     dom (deltaJdict R) \<subseteq> dom (deltaJdict R') \<and>
     (\<exists>es. events R' = events R @ es) \<and>
     (\<forall>k\<in>dom (deltaSdict R') - dom (deltaSdict R). length k \<le> n)"

lemma frame_refl: "frame n R R"
  by (simp add: frame_def)

lemma frame_trans:
  assumes "frame n R R'" "frame n R' R''"
  shows "frame n R R''"
proof -
  have "map_le (deltaSdict R) (deltaSdict R'')"
    using assms unfolding frame_def by (blast intro: map_le_trans)
  moreover have "dom (deltaJdict R) \<subseteq> dom (deltaJdict R'')"
    using assms unfolding frame_def by blast
  moreover have "\<exists>es. events R'' = events R @ es"
    using assms unfolding frame_def by auto
  moreover have "\<forall>k\<in>dom (deltaSdict R'') - dom (deltaSdict R). length k \<le> n"
    using assms unfolding frame_def by blast
  ultimately show ?thesis unfolding frame_def by blast
qed

lemma frame_mono: "frame n R R' \<Longrightarrow> n \<le> m \<Longrightarrow> frame m R R'"
  unfolding frame_def by (meson order_trans)

lemma frame_log_event: "frame n R (log_event e R)"
  by (simp add: frame_def log_event_def)

lemma frame_store:
  "k \<notin> dom (deltaSdict R) \<Longrightarrow> length k \<le> n \<Longrightarrow> frame n R (store k a b R)"
  unfolding frame_def store_def log_event_def
  by (simp add: map_le_def) blast

lemma for_loop_rel:
  assumes "for_loop body xs a s = (res, s')"
    and "\<And>s. Q s s"
    and "\<And>x a t r t'. x \<in> set xs \<Longrightarrow> body x a t = (r, t') \<Longrightarrow> Q t t'"
    and "\<And>a b c. Q a b \<Longrightarrow> Q b c \<Longrightarrow> Q a c"
  shows "Q s s'"
  using assms(1,3)
proof (induction xs arbitrary: a s)
  case Nil
  then show ?case using assms(2) by auto
next
  case (Cons x xs)
  obtain r t where b: "body x a s = (r, t)" by (cases "body x a s")
  have q: "Q s t" using Cons.prems(2)[of x a s r t] b by simp
  show ?case
  proof (cases r)
    case (Inl e)
    then show ?thesis using Cons.prems(1) b q by simp
  next
    case (Inr a')
    then have "for_loop body xs a' t = (res, s')" using Cons.prems(1) b by simp
    then have "Q t s'"
    proof (rule Cons.IH)
      fix y b u r' u' assume "y \<in> set xs" "body y b u = (r', u')"
      then show "Q u u'" using Cons.prems(2)[of y b u r' u'] by simp
    qed
    then show ?thesis using q assms(4) by blast
  qed
qed

lemma sub_step_frame:
  assumes "\<And>R res R'. dS P x R = (res, R') \<Longrightarrow> frame n R R'"
    and "sub_step P x acc R = (res, R')"
  shows "frame n R R'"
proof -
  obtain r t where d: "dS P x R = (r, t)" by (cases "dS P x R")
  then have "R' = t" using assms(2) unfolding sub_step_def
    by (cases r; cases acc) (auto split: prod.splits)
  then show ?thesis using assms(1)[OF d] by simp
qed

lemma clusterID_length [simp]: "length (clusterID c) = length c"
  by (simp add: clusterID_def)

lemma fullS_nonempty: "fullS P c = Inr r \<Longrightarrow> c \<noteq> []"
  by (auto simp: fullS_def S_def)

lemma dS_frame: "dS P c R = (res, R') \<Longrightarrow> frame (length c) R R'"
proof (induction "length c" arbitrary: c R res R' rule: less_induct)
  case less
  note IH = less.hyps
  show ?case
  proof (cases "good_flags P")
    case False
    then show ?thesis using less.prems by (simp add: dS_unfold frame_refl)
  next
    case gf: True
    show ?thesis
    proof (cases "deltaSdict R (clusterID c)")
      case (Some v)
      then have "R' = R" using less.prems gf by (simp add: dS_unfold split: option.splits)
      then show ?thesis by (simp add: frame_refl)
    next
      case None
      show ?thesis
      proof (cases "fullS P c")
        case (Inl e)
        then have "R' = log_event (CallS c) R" using less.prems gf None by (simp add: dS_unfold)
        then show ?thesis by (simp add: frame_log_event)
      next
        case (Inr r)
        obtain ent Jf where r: "r = (ent, Jf)" by (cases r)
        have ne: "c \<noteq> []" using Inr fullS_nonempty by blast
        define R2 where "R2 = log_event (ref_event P c) (log_event (CallS c) R)"
        define start where "start = (ent - fst (refS P c), msub Jf (snd (refS P c)))"
        obtain res3 R3 where loop: "for_loop (size_step P c) (rev [1..<length c]) start R2 = (res3, R3)"
          by (cases "for_loop (size_step P c) (rev [1..<length c]) start R2")
        have f2: "frame (length c - 1) R R2"
          unfolding R2_def using frame_trans frame_log_event by blast
        have body: "frame (length c - 1) t t'"
          if "size \<in> set (rev [1..<length c])" "size_step P c size a t = (r', t')" for size a t r' t'
        proof (cases "subsets c (int size) False")
          case (Inl e)
          then show ?thesis using that(2) by (simp add: size_step_def frame_refl)
        next
          case (Inr subs)
          have sz: "0 < size" "size < length c" using that(1) by auto
          have inner: "for_loop (sub_step P) subs a t = (r', t')"
            using that(2) Inr by (simp add: size_step_def)
          show ?thesis
          proof (rule for_loop_rel[OF inner])
            show "frame (length c - 1) s s" for s by (rule frame_refl)
          next
            fix x a' u r'' u'
            assume x: "x \<in> set subs" and st: "sub_step P x a' u = (r'', u')"
            have lx: "length x = size" using subsets_length[OF Inr sz(1) x] by simp
            have le: "length x \<le> length c - 1" "length x < length c" using lx sz by auto
            have "\<And>R res R'. dS P x R = (res, R') \<Longrightarrow> frame (length c - 1) R R'"
              using IH[OF le(2)] frame_mono[OF _ le(1)] by blast
            then show "frame (length c - 1) u u'" using sub_step_frame st by blast
          next
            show "\<And>a b c'. frame (length c - 1) a b \<Longrightarrow> frame (length c - 1) b c' \<Longrightarrow> frame (length c - 1) a c'"
              by (rule frame_trans)
          qed
        qed
        have f3: "frame (length c - 1) R2 R3"
          by (rule for_loop_rel[OF loop frame_refl body frame_trans])
        have f13: "frame (length c - 1) R R3" using f2 f3 frame_trans by blast
        show ?thesis
        proof (cases res3)
          case (Inl e)
          then have "R' = R3" using less.prems gf None Inr r loop
            by (simp add: dS_unfold R2_def start_def)
          then show ?thesis using f13 frame_mono by auto
        next
          case (Inr ab)
          obtain a b where ab: "ab = (a, b)" by (cases ab)
          have R': "R' = store (clusterID c) a b R3"
            using less.prems gf None \<open>fullS P c = Inr r\<close> r loop Inr ab
            by (simp add: dS_unfold R2_def start_def)
          have "clusterID c \<notin> dom (deltaSdict R3)"
          proof
            assume in3: "clusterID c \<in> dom (deltaSdict R3)"
            have "clusterID c \<notin> dom (deltaSdict R)" using None by auto
            then have "length (clusterID c) \<le> length c - 1"
              using f13 in3 unfolding frame_def by blast
            then show False using ne by (cases c) auto
          qed
          then have "frame (length c) R3 R'" unfolding R' by (intro frame_store) simp_all
          then show ?thesis using f13 frame_mono[of "length c - 1" R R3 "length c"] frame_trans by auto
        qed
      qed
    qed
  qed
qed

lemma dS_post:
  assumes "dS P c R = (Inr r, R')"
  shows "deltaSdict R' (clusterID c) = Some (fst r) \<and> deltaJdict R' (clusterID c) = Some (snd r)"
proof -
  have gf: "good_flags P" using assms by (auto simp: dS_unfold split: if_splits)
  show ?thesis
  proof (cases "deltaSdict R (clusterID c)")
    case (Some v)
    then show ?thesis using assms gf by (auto simp: dS_unfold split: option.splits)
  next
    case None
    then show ?thesis using assms gf
      by (auto simp: dS_unfold store_def log_event_def split: sum.splits prod.splits)
  qed
qed

lemma dS_Inr_good_flags: "dS P c R = (Inr r, R') \<Longrightarrow> good_flags P"
  by (auto simp: dS_unfold split: if_splits)

lemma dS_memo:
  assumes "good_flags P" "deltaSdict R (clusterID c) = Some v" "deltaJdict R (clusterID c) = Some j"
  shows "dS P c R = (Inr (v, j), R)"
  using assms by (simp add: dS_unfold)

lemma clusterID_perm: "mset c' = mset c \<Longrightarrow> clusterID c' = clusterID c"
  unfolding clusterID_def by (metis mset_sort properties_for_sort sorted_sort)

lemma clusterID_sorted_list_of_set:
  "distinct c \<Longrightarrow> clusterID c = sorted_list_of_set (set c)"
  unfolding clusterID_def by (simp add: sorted_list_of_set_sort_remdups distinct_remdups_id)

text \<open>The registry only grows.\<close>

definition grows :: "registry \<Rightarrow> registry \<Rightarrow> bool" where
  "grows R R' \<longleftrightarrow> (\<exists>n. frame n R R')"

lemma grows_refl: "grows R R"
  unfolding grows_def using frame_refl by blast

lemma grows_trans: "grows R R' \<Longrightarrow> grows R' R'' \<Longrightarrow> grows R R''"
proof -
  assume "grows R R'" "grows R' R''"
  then obtain n m where "frame n R R'" "frame m R' R''" unfolding grows_def by blast
  then have "frame (max n m) R R'" "frame (max n m) R' R''"
    using frame_mono by (meson max.cobounded1 max.cobounded2)+
  then show ?thesis unfolding grows_def using frame_trans by blast
qed

lemma dS_grows: "dS P c R = (res, R') \<Longrightarrow> grows R R'"
  unfolding grows_def using dS_frame by blast

lemma sub_step_grows: "sub_step P x acc R = (res, R') \<Longrightarrow> grows R R'"
  unfolding grows_def using sub_step_frame[of P x "length x" acc R res R'] dS_frame by blast

lemma sub_loop_grows: "for_loop (sub_step P) xs acc R = (res, R') \<Longrightarrow> grows R R'"
  by (rule for_loop_rel[where Q = grows]) (auto intro: grows_refl grows_trans sub_step_grows)

lemma grows_value: "grows R R' \<Longrightarrow> deltaSdict R k = Some v \<Longrightarrow> deltaSdict R' k = Some v"
  unfolding grows_def frame_def map_le_def by (metis domI)

lemma grows_domJ: "grows R R' \<Longrightarrow> k \<in> dom (deltaJdict R) \<Longrightarrow> k \<in> dom (deltaJdict R')"
  unfolding grows_def frame_def by blast

lemma sub_step_Inr:
  assumes "sub_step P x (a, b) R = (Inr (a', b'), R')"
  shows "\<exists>u v. dS P x R = (Inr (u, v), R') \<and> a' = a - u \<and> b' = msub b v"
proof -
  obtain r t where d: "dS P x R = (r, t)" by (cases "dS P x R")
  show ?thesis
  proof (cases r)
    case (Inl e)
    then show ?thesis using assms d by (simp add: sub_step_def)
  next
    case (Inr uv)
    then show ?thesis using assms d by (cases uv) (simp add: sub_step_def)
  qed
qed

lemma sub_loop_value:
  assumes "for_loop (sub_step P) xs (a, b) R = (Inr (a', b'), R')"
  shows "(\<forall>x\<in>set xs. clusterID x \<in> dom (deltaSdict R') \<and> clusterID x \<in> dom (deltaJdict R')) \<and>
         a' = a - (\<Sum>x\<leftarrow>xs. the (deltaSdict R' (clusterID x)))"
  using assms
proof (induction xs arbitrary: a b R)
  case Nil
  then show ?case by simp
next
  case (Cons x xs)
  obtain r t where st: "sub_step P x (a, b) R = (r, t)" by (cases "sub_step P x (a, b) R")
  show ?case
  proof (cases r)
    case (Inl e)
    then show ?thesis using Cons.prems st by simp
  next
    case (Inr ab)
    obtain a1 b1 where ab: "ab = (a1, b1)" by (cases ab)
    have rest: "for_loop (sub_step P) xs (a1, b1) t = (Inr (a', b'), R')"
      using Cons.prems st Inr ab by simp
    obtain u v where d: "dS P x R = (Inr (u, v), t)" "a1 = a - u"
      using sub_step_Inr[of P x a b R a1 b1 t] st Inr ab by auto
    have g: "grows t R'" using sub_loop_grows[OF rest] .
    have pt: "deltaSdict t (clusterID x) = Some u" "clusterID x \<in> dom (deltaJdict t)"
      using dS_post[OF d(1)] by auto
    have px: "deltaSdict R' (clusterID x) = Some u" "clusterID x \<in> dom (deltaJdict R')"
      using grows_value[OF g pt(1)] grows_domJ[OF g pt(2)] by auto
    from Cons.IH[OF rest] px d(2) show ?thesis by auto
  qed
qed

subsection \<open>The sub-clusters that deltaS visits\<close>

text \<open>The lists that the two nested loops of \<open>deltaS\<close> pass to the recursive call, in order.\<close>

definition subsets_or_nil :: "cluster \<Rightarrow> nat \<Rightarrow> cluster list" where
  "subsets_or_nil c k = (case subsets c (int k) False of Inr r \<Rightarrow> r | Inl e \<Rightarrow> [])"

definition proper_subclusters :: "cluster \<Rightarrow> cluster list" where
  "proper_subclusters c = concat (map (subsets_or_nil c) (rev [1..<length c]))"

lemma for_loop_append:
  "for_loop f (xs @ ys) a s =
     (case for_loop f xs a s of (Inl e, s') \<Rightarrow> (Inl e, s') | (Inr a', s') \<Rightarrow> for_loop f ys a' s')"
proof (induction xs arbitrary: a s)
  case Nil
  then show ?case by simp
next
  case (Cons x xs)
  then show ?case by (cases "f x a s") (auto split: sum.splits)
qed

lemma size_step_distinct:
  assumes "distinct c" "0 < k"
  shows "size_step P c k acc R = for_loop (sub_step P) (subsets_or_nil c k) acc R"
proof -
  obtain r where "subsets c (int k) False = Inr r"
    using subsets_Inr[OF assms, of False] by blast
  then show ?thesis by (simp add: size_step_def subsets_or_nil_def)
qed

lemma sizes_loop_flat:
  assumes "distinct c" "\<forall>k\<in>set ks. 0 < k"
  shows "for_loop (size_step P c) ks acc R =
         for_loop (sub_step P) (concat (map (subsets_or_nil c) ks)) acc R"
  using assms(2)
proof (induction ks arbitrary: acc R)
  case Nil
  then show ?case by simp
next
  case (Cons k ks)
  have k: "0 < k" using Cons.prems by simp
  have IH: "\<And>acc R. for_loop (size_step P c) ks acc R =
         for_loop (sub_step P) (concat (map (subsets_or_nil c) ks)) acc R"
    using Cons.IH Cons.prems by simp
  show ?case
    by (cases "for_loop (sub_step P) (subsets_or_nil c k) acc R")
       (auto simp: for_loop_append size_step_distinct[OF assms(1) k] IH split: sum.splits)
qed

lemma sizes_loop_proper:
  "distinct c \<Longrightarrow> for_loop (size_step P c) (rev [1..<length c]) acc R =
                  for_loop (sub_step P) (proper_subclusters c) acc R"
  unfolding proper_subclusters_def by (rule sizes_loop_flat) auto

lemma sizes_loop_not_distinct:
  assumes "\<not> distinct c"
  shows "for_loop (size_step P c) (rev [1..<length c]) acc R = (Inl Exception, R)"
proof -
  have "2 \<le> length c" using assms by (cases c; cases "tl c") auto
  then obtain n where n: "length c = Suc (Suc n)"
    by (metis One_nat_def Suc_1 Suc_le_D Suc_le_mono)
  have "rev [1..<length c] = (length c - 1) # rev [1..<Suc n]" unfolding n by simp
  then obtain ks where ks: "rev [1..<length c] = (length c - 1) # ks" by blast
  have "size_step P c (length c - 1) acc R = (Inl Exception, R)"
    using assms by (simp add: size_step_def subsets_not_distinct)
  then show ?thesis unfolding ks by simp
qed

lemma subsets_or_nil_post:
  "distinct c \<Longrightarrow> 0 < k \<Longrightarrow> subsets_post c k (subsets_or_nil c k)"
  using subsets_Inr[of c k False] by (auto simp: subsets_or_nil_def)

lemma blocks_sets:
  assumes d: "distinct c" and ks: "distinct ks" "\<forall>k\<in>set ks. 0 < k"
  shows "distinct (map set (concat (map (subsets_or_nil c) ks))) \<and>
         set (map set (concat (map (subsets_or_nil c) ks))) = {A. A \<subseteq> set c \<and> card A \<in> set ks} \<and>
         (\<forall>x\<in>set (concat (map (subsets_or_nil c) ks)). distinct x \<and> length x \<in> set ks)"
  using ks
proof (induction ks)
  case Nil
  then show ?case by simp
next
  case (Cons k ks)
  have p: "subsets_post c k (subsets_or_nil c k)"
    using subsets_or_nil_post[OF d] Cons.prems by simp
  have IH: "distinct (map set (concat (map (subsets_or_nil c) ks)))"
    "set (map set (concat (map (subsets_or_nil c) ks))) = {A. A \<subseteq> set c \<and> card A \<in> set ks}"
    "\<forall>x\<in>set (concat (map (subsets_or_nil c) ks)). distinct x \<and> length x \<in> set ks"
    using Cons by auto
  have k1: "distinct (map set (subsets_or_nil c k))"
    and k2: "set (map set (subsets_or_nil c k)) = {A. A \<subseteq> set c \<and> card A = k}"
    and k3: "\<forall>x\<in>set (subsets_or_nil c k). distinct x \<and> length x = k"
    using p unfolding subsets_post_def by auto
  have disj: "set (map set (subsets_or_nil c k)) \<inter> set (map set (concat (map (subsets_or_nil c) ks))) = {}"
    unfolding k2 IH(2) using Cons.prems(1) by auto
  have a: "distinct (map set (concat (map (subsets_or_nil c) (k # ks))))"
    using k1 IH(1) disj by simp
  have b: "set (map set (concat (map (subsets_or_nil c) (k # ks)))) = {A. A \<subseteq> set c \<and> card A \<in> set (k # ks)}"
  proof -
    have "set (map set (concat (map (subsets_or_nil c) (k # ks)))) =
          set (map set (subsets_or_nil c k)) \<union> set (map set (concat (map (subsets_or_nil c) ks)))"
      by simp
    also have "\<dots> = {A. A \<subseteq> set c \<and> card A = k} \<union> {A. A \<subseteq> set c \<and> card A \<in> set ks}"
      unfolding k2 IH(2) ..
    also have "\<dots> = {A. A \<subseteq> set c \<and> card A \<in> set (k # ks)}" by auto
    finally show ?thesis .
  qed
  have cc: "\<forall>x\<in>set (concat (map (subsets_or_nil c) (k # ks))). distinct x \<and> length x \<in> set (k # ks)"
    using k3 IH(3) by auto
  show ?case using a b cc by blast
qed

lemma proper_subclusters_sets:
  assumes d: "distinct c"
  shows "distinct (map set (proper_subclusters c))"
    and "set (map set (proper_subclusters c)) = Pow (set c) - {{}, set c}"
    and "\<forall>x\<in>set (proper_subclusters c). distinct x \<and> 0 < length x \<and> length x < length c"
proof -
  have ks: "distinct (rev [1..<length c])" "\<forall>k\<in>set (rev [1..<length c]). 0 < k" by auto
  note B = blocks_sets[OF d ks, folded proper_subclusters_def]
  show "distinct (map set (proper_subclusters c))" using B by blast
  show "\<forall>x\<in>set (proper_subclusters c). distinct x \<and> 0 < length x \<and> length x < length c"
    using B by auto
  have "{A. A \<subseteq> set c \<and> card A \<in> set (rev [1..<length c])} = Pow (set c) - {{}, set c}"
  proof (intro set_eqI iffI)
    fix A assume "A \<in> {A. A \<subseteq> set c \<and> card A \<in> set (rev [1..<length c])}"
    then have A: "A \<subseteq> set c" "0 < card A" "card A < length c" by auto
    have "A \<noteq> {}" using A(2) by auto
    moreover have "A \<noteq> set c" using A(3) d by (auto simp: distinct_card)
    ultimately show "A \<in> Pow (set c) - {{}, set c}" using A(1) by auto
  next
    fix A assume "A \<in> Pow (set c) - {{}, set c}"
    then have A: "A \<subseteq> set c" "A \<noteq> {}" "A \<noteq> set c" by auto
    have f: "finite A" using A(1) finite_subset by auto
    have "0 < card A" using A(2) f by (simp add: card_gt_0_iff)
    moreover have "card A < card (set c)" using A(1,3) by (simp add: psubset_card_mono psubsetI)
    then have "card A < length c" using d by (simp add: distinct_card)
    ultimately show "A \<in> {A. A \<subseteq> set c \<and> card A \<in> set (rev [1..<length c])}" using A(1) by auto
  qed
  then show "set (map set (proper_subclusters c)) = Pow (set c) - {{}, set c}" using B by simp
qed

definition dicts_aligned :: "registry \<Rightarrow> bool" where
  "dicts_aligned R \<longleftrightarrow> dom (deltaSdict R) \<subseteq> dom (deltaJdict R)"

lemma fullS_Inr: "c \<noteq> [] \<Longrightarrow> \<exists>ent Jf. fullS P c = Inr (ent, Jf)"
  by (simp add: fullS_def S_def Let_def)

lemma sub_loop_total:
  assumes "\<forall>x\<in>set xs. \<forall>R. dicts_aligned R \<longrightarrow> (\<exists>r R'. dS P x R = (Inr r, R') \<and> dicts_aligned R')"
    and "dicts_aligned R"
  shows "\<exists>acc' R'. for_loop (sub_step P) xs acc R = (Inr acc', R') \<and> dicts_aligned R'"
  using assms
proof (induction xs arbitrary: acc R)
  case Nil
  then show ?case by simp
next
  case (Cons x xs)
  obtain r R1 where d: "dS P x R = (Inr r, R1)" "dicts_aligned R1"
    using Cons.prems by (meson list.set_intros(1))
  obtain a b where acc: "acc = (a, b)" by (cases acc)
  obtain u v where r: "r = (u, v)" by (cases r)
  have st: "sub_step P x acc R = (Inr (a - u, msub b v), R1)"
    using d(1) acc r by (simp add: sub_step_def)
  obtain acc' R' where "for_loop (sub_step P) xs (a - u, msub b v) R1 = (Inr acc', R')" "dicts_aligned R'"
    using Cons.IH[of R1 "(a - u, msub b v)"] Cons.prems(1) d(2) by auto
  then show ?case using st by simp
qed

lemma dicts_aligned_log [simp]: "dicts_aligned (log_event e R) = dicts_aligned R"
  by (simp add: dicts_aligned_def log_event_def)

lemma dicts_aligned_store: "dicts_aligned R \<Longrightarrow> dicts_aligned (store k a b R)"
  unfolding dicts_aligned_def store_def log_event_def by auto

lemma dS_total:
  "c \<noteq> [] \<Longrightarrow> distinct c \<Longrightarrow> good_flags P \<Longrightarrow> dicts_aligned R
    \<Longrightarrow> \<exists>r R'. dS P c R = (Inr r, R') \<and> dicts_aligned R'"
proof (induction "length c" arbitrary: c R rule: less_induct)
  case less
  show ?case
  proof (cases "deltaSdict R (clusterID c)")
    case (Some v)
    then obtain j where "deltaJdict R (clusterID c) = Some j"
      using less.prems(4) unfolding dicts_aligned_def by blast
    then show ?thesis using dS_memo[OF less.prems(3) Some] less.prems(4) by auto
  next
    case None
    obtain ent Jf where fs: "fullS P c = Inr (ent, Jf)" using fullS_Inr[OF less.prems(1)] by blast
    define R2 where "R2 = log_event (ref_event P c) (log_event (CallS c) R)"
    define start where "start = (ent - fst (refS P c), msub Jf (snd (refS P c)))"
    have a2: "dicts_aligned R2" unfolding R2_def using less.prems(4) by simp
    have sub: "\<forall>x\<in>set (proper_subclusters c). \<forall>R. dicts_aligned R \<longrightarrow>
                 (\<exists>r R'. dS P x R = (Inr r, R') \<and> dicts_aligned R')"
    proof (intro ballI allI impI)
      fix x R assume x: "x \<in> set (proper_subclusters c)" and al: "dicts_aligned R"
      have px: "distinct x" "0 < length x" "length x < length c"
        using proper_subclusters_sets(3)[OF less.prems(2)] x by auto
      then show "\<exists>r R'. dS P x R = (Inr r, R') \<and> dicts_aligned R'"
        using less.hyps[of x R] less.prems(3) al by auto
    qed
    obtain acc' R3 where loop: "for_loop (sub_step P) (proper_subclusters c) start R2 = (Inr acc', R3)"
      and a3: "dicts_aligned R3"
      using sub_loop_total[OF sub a2, of start] by blast
    obtain a b where acc': "acc' = (a, b)" by (cases acc')
    have loop': "for_loop (size_step P c) (rev [1..<length c]) start R2 = (Inr (a, b), R3)"
      using loop acc' sizes_loop_proper[OF less.prems(2)] by simp
    have "dS P c R = (Inr (a, b), store (clusterID c) a b R3)"
      using less.prems(3) None fs loop'
      by (simp add: dS_unfold R2_def start_def)
    then show ?thesis using dicts_aligned_store[OF a3] by blast
  qed
qed

lemma store_other: "k' \<noteq> k \<Longrightarrow> deltaSdict (store k a b R) k' = deltaSdict R k'"
  by (simp add: store_def log_event_def)

lemma store_dom:
  "dom (deltaSdict (store k a b R)) = insert k (dom (deltaSdict R))"
  "dom (deltaJdict (store k a b R)) = insert k (dom (deltaJdict R))"
  by (auto simp: store_def log_event_def)

lemma dS_fresh:
  assumes "dS P c R = (Inr (a, b), R')" "deltaSdict R (clusterID c) = None"
  shows "\<exists>ent Jf R3. fullS P c = Inr (ent, Jf) \<and> c \<noteq> [] \<and> distinct c \<and>
           for_loop (sub_step P) (proper_subclusters c)
             (ent - fst (refS P c), msub Jf (snd (refS P c)))
             (log_event (ref_event P c) (log_event (CallS c) R)) = (Inr (a, b), R3) \<and>
           R' = store (clusterID c) a b R3"
proof -
  have gf: "good_flags P" using assms(1) dS_Inr_good_flags by blast
  obtain ent Jf where fs: "fullS P c = Inr (ent, Jf)"
    using assms gf by (cases "fullS P c") (auto simp: dS_unfold)
  have ne: "c \<noteq> []" using fs fullS_nonempty by blast
  define R2 where "R2 = log_event (ref_event P c) (log_event (CallS c) R)"
  define start where "start = (ent - fst (refS P c), msub Jf (snd (refS P c)))"
  obtain res3 R3 where loop: "for_loop (size_step P c) (rev [1..<length c]) start R2 = (res3, R3)"
    by (cases "for_loop (size_step P c) (rev [1..<length c]) start R2")
  have res: "res3 = Inr (a, b)" "R' = store (clusterID c) a b R3"
    using assms gf fs loop
    by (cases res3; auto simp: dS_unfold R2_def start_def split: prod.splits)+
  have d: "distinct c"
  proof (rule ccontr)
    assume "\<not> distinct c"
    then show False using sizes_loop_not_distinct[of c P start R2] loop res by simp
  qed
  show ?thesis
    using fs ne d loop res unfolding sizes_loop_proper[OF d] R2_def start_def by blast
qed

lemma sum_list_sets:
  assumes "distinct (map set xs)" "\<forall>x\<in>set xs. distinct x"
  shows "(\<Sum>x\<leftarrow>xs. g (clusterID x)) = (\<Sum>A\<in>set (map set xs). g (sorted_list_of_set A))"
proof -
  have "(\<Sum>x\<leftarrow>xs. g (clusterID x)) = (\<Sum>x\<leftarrow>xs. g (sorted_list_of_set (set x)))"
    using assms(2) by (intro arg_cong[where f = sum_list] map_cong) (auto simp: clusterID_sorted_list_of_set)
  also have "\<dots> = (\<Sum>A\<leftarrow>map set xs. g (sorted_list_of_set A))"
    by (simp add: comp_def)
  also have "\<dots> = (\<Sum>A\<in>set (map set xs). g (sorted_list_of_set A))"
    using assms(1) by (rule sum_list_distinct_conv_sum_set)
  finally show ?thesis .
qed

lemma dS_fresh_value:
  assumes "dS P c R = (Inr (a, b), R')" "deltaSdict R (clusterID c) = None"
  shows "\<exists>ent Jf. fullS P c = Inr (ent, Jf) \<and>
           ent = fst (refS P c) + (\<Sum>A\<in>Pow (set c) - {{}}. the (deltaSdict R' (sorted_list_of_set A)))"
proof -
  obtain ent Jf R3 where fs: "fullS P c = Inr (ent, Jf)" and ne: "c \<noteq> []" and d: "distinct c"
    and loop: "for_loop (sub_step P) (proper_subclusters c)
             (ent - fst (refS P c), msub Jf (snd (refS P c)))
             (log_event (ref_event P c) (log_event (CallS c) R)) = (Inr (a, b), R3)"
    and R': "R' = store (clusterID c) a b R3"
    using dS_fresh[OF assms] by blast
  let ?g3 = "\<lambda>k. the (deltaSdict R3 k)"
  let ?g = "\<lambda>k. the (deltaSdict R' k)"
  note ps = proper_subclusters_sets[OF d]
  have val: "a = ent - fst (refS P c) - (\<Sum>x\<leftarrow>proper_subclusters c. ?g3 (clusterID x))"
    using sub_loop_value[OF loop] by simp
  have same: "?g (clusterID x) = ?g3 (clusterID x)" if "x \<in> set (proper_subclusters c)" for x
  proof -
    have "length x < length c" using ps(3) that by auto
    then have "clusterID x \<noteq> clusterID c" by (metis clusterID_length less_irrefl)
    then show ?thesis unfolding R' by (simp add: store_other)
  qed
  have "(\<Sum>x\<leftarrow>proper_subclusters c. ?g3 (clusterID x)) = (\<Sum>x\<leftarrow>proper_subclusters c. ?g (clusterID x))"
    using same by (intro arg_cong[where f = sum_list] map_cong) auto
  also have "\<dots> = (\<Sum>A\<in>set (map set (proper_subclusters c)). ?g (sorted_list_of_set A))"
    using ps(1,3) by (intro sum_list_sets) auto
  also have "\<dots> = (\<Sum>A\<in>Pow (set c) - {{}, set c}. ?g (sorted_list_of_set A))"
    unfolding ps(2) ..
  finally have sub: "(\<Sum>x\<leftarrow>proper_subclusters c. ?g3 (clusterID x)) =
      (\<Sum>A\<in>Pow (set c) - {{}, set c}. ?g (sorted_list_of_set A))" .
  have top: "?g (sorted_list_of_set (set c)) = a"
    using dS_post[OF assms(1)] clusterID_sorted_list_of_set[OF d] by simp
  have split: "Pow (set c) - {{}} = insert (set c) (Pow (set c) - {{}, set c})"
    using ne by auto
  have "(\<Sum>A\<in>Pow (set c) - {{}}. ?g (sorted_list_of_set A)) =
        a + (\<Sum>A\<in>Pow (set c) - {{}, set c}. ?g (sorted_list_of_set A))"
    unfolding split using top by (subst sum.insert) auto
  then show ?thesis using fs val sub by auto
qed

subsection \<open>A concrete instance of the collaborators, for the examples\<close>

definition example_ext :: ext where
  "example_ext =
     \<lparr>coocCluster = (\<lambda>M c. map (\<lambda>i. map (\<lambda>j. M ! i ! j) c) c),
      findJmatrixAnalytic_CoocMat = (\<lambda>M pl ns. M),
      JfullFromCluster = (\<lambda>J c N i j.
         sum_list (concat (map (\<lambda>a. map (\<lambda>b. if c ! a = i \<and> c ! b = j then J ! a ! b else 0)
                                     [0..<length c]) [0..<length c]))),
      analyticEntropy = (\<lambda>J. real (length J) ^ 3),
      symmetrizeUsingUpper = (\<lambda>M. M),
      SmeanField = (\<lambda>c M pl ns. (0, zeros)),
      coocurrence_matrix =
        Some (\<lambda>X. map (\<lambda>i. map (\<lambda>j. (\<Sum>row\<leftarrow>X. row ! i * row ! j) / real (length X))
                               [0..<length (hd X)]) [0..<length (hd X)]),
      zeroDiag = (\<lambda>N J i j. if i = j then 0 else J i j),
      squareform = (\<lambda>N J. concat (map (\<lambda>i. map (\<lambda>j. J i j) [i + 1..<N]) [0..<N])),
      convert_params = (\<lambda>h J basis concat. h @ J)\<rparr>"

definition example_cooc :: matrix where
  "example_cooc = [[1/2, 1/4, 1/4], [1/4, 1/2, 1/4], [1/4, 1/4, 1/2]]"

lemma good_flags_mk [simp]:
  "good_flags (mk_params E M mf pl ns ind mp) \<longleftrightarrow> ind \<noteq> mf"
  by (auto simp: good_flags_def mk_params_def)

lemma deltaS_returns:
  assumes "B \<noteq> []" "distinct B" "independentRef \<noteq> meanFieldRef"
    "dom (deltaSdict R) \<subseteq> dom (deltaJdict R)"
  shows "\<exists>r R'. deltaS E B coocMat R meanFieldRef priorLmbda numSamples independentRef
                  meanFieldPriorLmbda = (Inr r, R') \<and>
                dom (deltaSdict R') \<subseteq> dom (deltaJdict R')"
  using dS_total[of B "mk_params E coocMat meanFieldRef priorLmbda numSamples independentRef
      meanFieldPriorLmbda" R] assms
  by (simp add: deltaS_dS dicts_aligned_def)

text \<open>
  Claim C1. Let \<open>B\<close> be a non-empty duplicate-free cluster whose identity is not yet in
  the entropy dictionary, exactly one reference mode be active, and every key of the
  entropy dictionary be a key of the interaction dictionary. Then \<open>deltaS(B)\<close> returns,
  and afterwards the entropy that \<open>S\<close> computes for \<open>B\<close> equals the reference entropy of
  \<open>B\<close> plus the sum of the memoized \<open>deltaS\<close> values over all non-empty subsets of \<open>B\<close>,
  \<open>B\<close> included. (Real arithmetic stands for the floating-point arithmetic.)
\<close>

theorem deltaS_inclusion_exclusion:
  assumes "B \<noteq> []" and "distinct B" and "independentRef \<noteq> meanFieldRef"
    and "dom (deltaSdict R) \<subseteq> dom (deltaJdict R)"
    and "clusterID B \<notin> dom (deltaSdict R)"
  shows "\<exists>dSB dJB R' ent Jfull.
      deltaS E B coocMat R meanFieldRef priorLmbda numSamples independentRef meanFieldPriorLmbda
        = (Inr (dSB, dJB), R') \<and>
      S E B coocMat False priorLmbda numSamples = Inr (ent, Jfull) \<and>
      ent = fst (if independentRef then Sindependent E B coocMat
                 else SmeanField E B coocMat
                        (case meanFieldPriorLmbda of None \<Rightarrow> priorLmbda | Some l \<Rightarrow> l) numSamples)
            + (\<Sum>A\<in>Pow (set B) - {{}}. the (deltaSdict R' (sorted_list_of_set A)))"
proof -
  let ?P = "mk_params E coocMat meanFieldRef priorLmbda numSamples independentRef meanFieldPriorLmbda"
  obtain r R' where ret: "dS ?P B R = (Inr r, R')"
    using deltaS_returns[OF assms(1-4), of E coocMat priorLmbda numSamples meanFieldPriorLmbda]
    by (auto simp: deltaS_dS)
  obtain a b where r: "r = (a, b)" by (cases r)
  have fresh: "deltaSdict R (clusterID B) = None" using assms(5) by auto
  obtain ent Jf where "fullS ?P B = Inr (ent, Jf)"
    "ent = fst (refS ?P B) + (\<Sum>A\<in>Pow (set B) - {{}}. the (deltaSdict R' (sorted_list_of_set A)))"
    using dS_fresh_value[OF ret[unfolded r] fresh] by blast
  then show ?thesis using ret r
    by (auto simp: deltaS_dS fullS_def refS_def mk_params_def)
qed

theorem deltaS_inclusion_exclusion_witness:
  "\<exists>dSB dJB R' ent Jfull.
      deltaS example_ext [0, 1] example_cooc empty_registry False 0 None True None
        = (Inr (dSB, dJB), R') \<and>
      S example_ext [0, 1] example_cooc False 0 None = Inr (ent, Jfull) \<and>
      ent = fst (if True then Sindependent example_ext [0, 1] example_cooc
                 else SmeanField example_ext [0, 1] example_cooc
                        (case None of None \<Rightarrow> 0 | Some l \<Rightarrow> l) None)
            + (\<Sum>A\<in>Pow (set [0, 1]) - {{}}. the (deltaSdict R' (sorted_list_of_set A)))"
proof (rule deltaS_inclusion_exclusion)
  show "[0, 1 :: nat] \<noteq> []" by simp
  show "distinct [0, 1 :: nat]" by simp
  show "True \<noteq> False" by simp
  show "dom (deltaSdict empty_registry) \<subseteq> dom (deltaJdict empty_registry)"
    by (simp add: empty_registry_def)
  show "clusterID [0, 1] \<notin> dom (deltaSdict empty_registry)"
    by (simp add: empty_registry_def)
qed

text \<open>
  Claim C2. When a call of \<open>deltaS\<close> has returned, a second call with the resulting
  dictionaries and any reordering of the same indices returns the same pair and leaves
  the registry as it is: nothing is written and none of the entropy routines is called
  (the history is part of the registry). Both lists have the same \<open>clusterID\<close>, the
  sorted list, under which the pair is stored.
\<close>

theorem deltaS_memo_idempotent:
  assumes "deltaS E c coocMat R meanFieldRef priorLmbda numSamples independentRef
             meanFieldPriorLmbda = (Inr r, R')"
    and "mset c' = mset c"
  shows "deltaS E c' coocMat R' meanFieldRef priorLmbda numSamples independentRef
             meanFieldPriorLmbda = (Inr r, R') \<and>
         clusterID c' = clusterID c \<and>
         deltaSdict R' (clusterID c) = Some (fst r) \<and>
         deltaJdict R' (clusterID c) = Some (snd r)"
proof -
  let ?P = "mk_params E coocMat meanFieldRef priorLmbda numSamples independentRef meanFieldPriorLmbda"
  have ret: "dS ?P c R = (Inr r, R')" using assms(1) by (simp add: deltaS_dS)
  have post: "deltaSdict R' (clusterID c) = Some (fst r)" "deltaJdict R' (clusterID c) = Some (snd r)"
    using dS_post[OF ret] by auto
  have id: "clusterID c' = clusterID c" using assms(2) by (rule clusterID_perm)
  have "dS ?P c' R' = (Inr (fst r, snd r), R')"
    using dS_memo[OF dS_Inr_good_flags[OF ret], of R' c'] post id by simp
  then show ?thesis using post id by (simp add: deltaS_dS)
qed

theorem deltaS_memo_idempotent_witness:
  "\<exists>r R'. deltaS example_ext [1, 0] example_cooc empty_registry False 0 None True None = (Inr r, R') \<and>
     deltaS example_ext [0, 1] example_cooc R' False 0 None True None = (Inr r, R') \<and>
     clusterID [0, 1] = clusterID [1, 0] \<and>
     deltaSdict R' (clusterID [1, 0]) = Some (fst r) \<and>
     deltaJdict R' (clusterID [1, 0]) = Some (snd r)"
proof -
  obtain r R' where
    ret: "deltaS example_ext [1, 0] example_cooc empty_registry False 0 None True None = (Inr r, R')"
    using deltaS_returns[of "[1, 0]" True False empty_registry example_ext example_cooc 0 None None]
    by (auto simp: empty_registry_def)
  have "mset [0, 1 :: nat] = mset [1, 0]" by simp
  from deltaS_memo_idempotent[OF ret this] ret show ?thesis by blast
qed

subsection \<open>solve ("Algorithm 2")\<close>

text \<open>
  The index pairs of \<open>for i in range(numClusters): for j in range(i+1, numClusters)\<close>,
  in the order of the two loops.
\<close>

definition pair_indices :: "nat \<Rightarrow> (nat \<times> nat) list" where
  "pair_indices n = concat (map (\<lambda>i. map (\<lambda>j. (i, j)) [i + 1..<n]) [0..<n])"

text \<open>
  The body of the two loops: \<open>gen\<close> is \<open>clusters[size]\<close>, the accumulator \<open>newgen\<close> is
  \<open>clusters[size+1]\<close>, \<open>T\<close> is the threshold. \<open>deltaS\<close> is called with the arguments of
  \<open>solve\<close> and the resolved \<open>meanFieldPriorLmbda\<close>, which \<open>P\<close> collects.
\<close>

definition pair_step :: "params \<Rightarrow> real \<Rightarrow> nat \<Rightarrow> cluster list \<Rightarrow> nat \<times> nat \<Rightarrow> cluster list \<Rightarrow> registry
    \<Rightarrow> (error + cluster list) \<times> registry" where
  "pair_step P T sz gen = (\<lambda>(i, j) newgen R.
     let gamma1 = gen ! i;
         gamma2 = gen ! j;
         gammaI = intersect1d gamma1 gamma2;
         gammaU = union1d gamma1 gamma2
     in if int (length gammaI) = int sz - 1 then
          (case deltaS (p_ext P) gammaU (p_cooc P) R (p_mf P) (p_lmbda P) (p_num P) (p_ind P)
                  (Some (p_mflmbda P)) of
             (Inl e, R') \<Rightarrow> (Inl e, R')
           | (Inr (deltaSgammaU, deltaJgammaU), R') \<Rightarrow>
               (Inr (if \<bar>deltaSgammaU\<bar> > T \<and> gammaU \<notin> set newgen
                     then newgen @ [gammaU] else newgen), R'))
        else (Inr newgen, R))"

definition next_generation :: "params \<Rightarrow> real \<Rightarrow> nat \<Rightarrow> cluster list \<Rightarrow> registry
    \<Rightarrow> (error + cluster list) \<times> registry" where
  "next_generation P T sz gen R =
     for_loop (pair_step P T sz gen) (pair_indices (length gen)) [] R"

lemma length_intersect1d: "length (intersect1d a b) = card (set a \<inter> set b)"
proof -
  have "length (intersect1d a b) = card (set (intersect1d a b))"
    by (metis distinct_card distinct_unique intersect1d_def)
  also have "set (intersect1d a b) = set a \<inter> set b"
    unfolding intersect1d_def by auto
  finally show ?thesis .
qed

lemma set_union1d [simp]: "set (union1d a b) = set a \<union> set b"
  by (simp add: union1d_def)

lemma pair_indices_iff: "(i, j) \<in> set (pair_indices n) \<longleftrightarrow> i < j \<and> j < n"
  by (force simp: pair_indices_def)

text \<open>Where the clusters of the next generation come from.\<close>

definition from_pair :: "nat \<Rightarrow> cluster list \<Rightarrow> cluster \<Rightarrow> bool" where
  "from_pair sz gen u \<longleftrightarrow>
     (\<exists>i j. i < j \<and> j < length gen \<and> u = union1d (gen ! i) (gen ! j) \<and>
            int (card (set (gen ! i) \<inter> set (gen ! j))) = int sz - 1)"

lemma for_loop_acc_inv:
  assumes "for_loop body xs a s = (Inr a', s')" and "I a"
    and "\<And>x a t b t'. x \<in> set xs \<Longrightarrow> I a \<Longrightarrow> body x a t = (Inr b, t') \<Longrightarrow> I b"
  shows "I a'"
  using assms
proof (induction xs arbitrary: a s)
  case Nil
  then show ?case by simp
next
  case (Cons x xs)
  obtain r t where b: "body x a s = (r, t)" by (cases "body x a s")
  show ?case
  proof (cases r)
    case (Inl e)
    then show ?thesis using Cons.prems(1) b by simp
  next
    case (Inr b')
    then have rest: "for_loop body xs b' t = (Inr a', s')" using Cons.prems(1) b by simp
    have Ib: "I b'" using Cons.prems(3)[of x a s b' t] Cons.prems(2) b Inr by simp
    show ?thesis
    proof (rule Cons.IH[OF rest Ib])
      fix y c u d u' assume "y \<in> set xs" "I c" "body y c u = (Inr d, u')"
      then show "I d" using Cons.prems(3)[of y c u d u'] by simp
    qed
  qed
qed

lemma pair_step_from_pair:
  assumes "(i, j) \<in> set (pair_indices (length gen))"
    and "\<forall>u\<in>set acc. from_pair sz gen u"
    and "pair_step P T sz gen (i, j) acc R = (Inr acc', R')"
  shows "\<forall>u\<in>set acc'. from_pair sz gen u"
proof -
  have ij: "i < j" "j < length gen" using assms(1) by (auto simp: pair_indices_iff)
  show ?thesis
  proof (cases "int (length (intersect1d (gen ! i) (gen ! j))) = int sz - 1")
    case False
    then show ?thesis using assms(2,3) by (simp add: pair_step_def Let_def)
  next
    case True
    then have fp: "from_pair sz gen (union1d (gen ! i) (gen ! j))"
      unfolding from_pair_def using ij length_intersect1d by metis
    have "set acc' \<subseteq> insert (union1d (gen ! i) (gen ! j)) (set acc)"
      using assms(3) True
      by (auto simp: pair_step_def Let_def split: prod.splits sum.splits if_splits)
    then show ?thesis using fp assms(2) by auto
  qed
qed

lemma next_generation_from_pair:
  assumes "next_generation P T sz gen R = (Inr newgen, R')"
  shows "\<forall>u\<in>set newgen. from_pair sz gen u"
proof (rule for_loop_acc_inv[OF assms[unfolded next_generation_def],
      where I = "\<lambda>acc. \<forall>u\<in>set acc. from_pair sz gen u"])
  show "\<forall>u\<in>set []. from_pair sz gen u" by simp
next
  fix x a t b t'
  assume "x \<in> set (pair_indices (length gen))" "\<forall>u\<in>set a. from_pair sz gen u"
    "pair_step P T sz gen x a t = (Inr b, t')"
  then show "\<forall>u\<in>set b. from_pair sz gen u"
    using pair_step_from_pair[of "fst x" "snd x" gen a sz P T t b t'] by simp
qed

text \<open>
  The \<open>while\<close> loop. \<open>clusters\<close> is the dictionary from sizes to generations, kept as
  the list of its items in the order of insertion.
\<close>

definition grow_measure :: "nat \<Rightarrow> (nat \<times> cluster list) list \<Rightarrow> nat" where
  "grow_measure sz clusters =
     (case map_of clusters sz of
        None \<Rightarrow> 0
      | Some gen \<Rightarrow> if gen = [] then 0 else 1 + (card (\<Union>(set ` set gen)) + 2 - sz))"

lemma grow_measure_decreases:
  assumes m: "map_of clusters sz = Some gen" and g: "0 < length gen"
    and ng0: "(Inr newgen, R') = next_generation P T sz gen R"
  shows "grow_measure (sz + 1) (AList.update (sz + 1) newgen clusters) < grow_measure sz clusters"
proof -
  have ng: "next_generation P T sz gen R = (Inr newgen, R')" using ng0 by simp
  have fp: "\<forall>u\<in>set newgen. from_pair sz gen u" using next_generation_from_pair[OF ng] .
  have sub: "\<Union>(set ` set newgen) \<subseteq> \<Union>(set ` set gen)"
  proof
    fix v assume "v \<in> \<Union>(set ` set newgen)"
    then obtain u where u: "u \<in> set newgen" "v \<in> set u" by auto
    then obtain i j where "i < j" "j < length gen" "u = union1d (gen ! i) (gen ! j)"
      using fp unfolding from_pair_def by blast
    then have "gen ! i \<in> set gen" "gen ! j \<in> set gen" "v \<in> set (gen ! i) \<union> set (gen ! j)"
      using u(2) by auto
    then show "v \<in> \<Union>(set ` set gen)" by blast
  qed
  have fin: "finite (\<Union>(set ` set gen))" by simp
  have c: "card (\<Union>(set ` set newgen)) \<le> card (\<Union>(set ` set gen))"
    using card_mono[OF fin sub] .
  show ?thesis
  proof (cases "newgen = []")
    case True
    then show ?thesis using m g by (simp add: grow_measure_def update_conv')
  next
    case False
    then obtain u where "u \<in> set newgen" by (cases newgen) auto
    then obtain i j where ij: "i < j" "j < length gen"
      "int (card (set (gen ! i) \<inter> set (gen ! j))) = int sz - 1"
      using fp unfolding from_pair_def by blast
    have "gen ! i \<in> set gen" using ij(1,2) by auto
    then have "set (gen ! i) \<inter> set (gen ! j) \<subseteq> \<Union>(set ` set gen)" by blast
    then have "card (set (gen ! i) \<inter> set (gen ! j)) \<le> card (\<Union>(set ` set gen))"
      using card_mono[OF fin] by blast
    then have "sz \<le> card (\<Union>(set ` set gen)) + 1" using ij(3) by linarith
    then show ?thesis using m g c False by (simp add: grow_measure_def update_conv')
  qed
qed

function grow :: "params \<Rightarrow> real \<Rightarrow> nat \<Rightarrow> (nat \<times> cluster list) list \<Rightarrow> registry
    \<Rightarrow> (error + (nat \<times> cluster list) list) \<times> registry" where
  "grow P T sz clusters R =
     (case map_of clusters sz of
        None \<Rightarrow> (Inl KeyError, R)
      | Some gen \<Rightarrow>
          if length gen > 0 then
            (case next_generation P T sz gen R of
               (Inl e, R') \<Rightarrow> (Inl e, R')
             | (Inr newgen, R') \<Rightarrow> grow P T (sz + 1) (AList.update (sz + 1) newgen clusters) R')
          else (Inr clusters, R))"
  by pat_completeness auto
termination
  apply (relation "measure (\<lambda>(P, T, sz, clusters, R). grow_measure sz clusters)")
   apply simp
  apply (simp only: in_measure prod.case)
  apply (erule (1) grow_measure_decreases)
  apply simp
  done

declare grow.simps [simp del]

text \<open>
  The reference model that the assembly starts from (\<open>if independentRef: ... elif
  meanFieldRef: ... else: ent = 0.; J0 = np.zeros((N,N))\<close>).
\<close>

definition reference_model :: "params \<Rightarrow> cluster \<Rightarrow> registry \<Rightarrow> (real \<times> fullmat) \<times> registry" where
  "reference_model P cluster R =
     (if p_ind P then
        (Sindependent (p_ext P) cluster (p_cooc P), log_event (CallSindependent cluster) R)
      else if p_mf P then
        (SmeanField (p_ext P) cluster (p_cooc P) (p_mflmbda P) (p_num P),
         log_event (CallSmeanField cluster) R)
      else ((0, zeros), R))"

text \<open>
  \<open>for size in clusters.keys(): for cluster in clusters[size]: ent += deltaSdict[cID];
  J += deltaJdict[cID]\<close>. The loop reads the dictionaries only, so the order in which
  the keys come does not matter for its result; the model takes them in the order of
  insertion.
\<close>

definition add_cluster :: "cluster \<Rightarrow> real \<times> fullmat \<Rightarrow> registry \<Rightarrow> (error + (real \<times> fullmat)) \<times> registry" where
  "add_cluster = (\<lambda>cluster (ent, J) R.
     let cID = clusterID cluster
     in case deltaSdict R cID of
          None \<Rightarrow> (Inl KeyError, R)
        | Some s \<Rightarrow>
           (case deltaJdict R cID of
              None \<Rightarrow> (Inl KeyError, R)
            | Some j \<Rightarrow> (Inr (ent + s, madd J j), R)))"

definition assemble :: "(nat \<times> cluster list) list \<Rightarrow> real \<times> fullmat \<Rightarrow> registry
    \<Rightarrow> (error + (real \<times> fullmat)) \<times> registry" where
  "assemble clusters start R = for_loop add_cluster (concat (map snd clusters)) start R"

text \<open>
  \<open>h = -J.diagonal(); J = -meanFieldIsing.zeroDiag(J);
  self.multipliers = convert_params(h, squareform(J)*2, '11', concat=True)\<close>.
\<close>

definition to_multipliers :: "ext \<Rightarrow> nat \<Rightarrow> fullmat \<Rightarrow> real list" where
  "to_multipliers E N J =
     (let h = map (\<lambda>i. - J i i) [0..<N];
          J' = mneg (zeroDiag E N J)
      in convert_params E h (map (\<lambda>x. x * 2) (squareform E N J')) ''11'' True)"

text \<open>
  What \<open>solve\<close> returns: the multipliers, or with \<open>return_all\<close> the tuple \<open>(ent,
  multipliers, clusters, deltaSdict, deltaJdict)\<close>, whose two dictionaries are the
  registry.
\<close>

datatype solve_result =
    Multipliers "real list"
  | ReturnAll real "real list" "(nat \<times> cluster list) list"

text \<open>
  \<open>solve(X, threshold, cluster, deltaSdict, deltaJdict, verbose, priorLmbda, numSamples,
  meanFieldRef, independentRef, veryVerbose, meanFieldPriorLmbda, return_all)\<close>; the two
  flags that only print are left out. \<open>(X+1)/2\<close> is entrywise. The first statement reads
  the attribute \<open>self.coocurrence_matrix\<close>, which raises AttributeError when the object
  has none.
\<close>

definition solve :: "ext \<Rightarrow> matrix \<Rightarrow> real \<Rightarrow> cluster option \<Rightarrow> registry \<Rightarrow> real \<Rightarrow> real option
    \<Rightarrow> bool \<Rightarrow> bool \<Rightarrow> real option \<Rightarrow> bool \<Rightarrow> (error + solve_result) \<times> registry" where
  "solve E X threshold cluster R priorLmbda numSamples meanFieldRef independentRef
      meanFieldPriorLmbda return_all =
    (case coocurrence_matrix E of
       None \<Rightarrow> (Inl AttributeError, R)
     | Some f \<Rightarrow>
    (let coocMat = f (map (map (\<lambda>x. (x + 1) / 2)) X)
     in if independentRef \<and> meanFieldRef then (Inl Exception, R)
        else
         (let mfpl = (case meanFieldPriorLmbda of None \<Rightarrow> priorLmbda | Some l \<Rightarrow> l);
              N = length coocMat;
              T = threshold;
              cluster = (case cluster of None \<Rightarrow> [0..<N] | Some c \<Rightarrow> c);
              P = \<lparr>p_ext = E, p_cooc = coocMat, p_mf = meanFieldRef, p_lmbda = priorLmbda,
                   p_num = numSamples, p_ind = independentRef, p_mflmbda = mfpl\<rparr>
          in case grow P T 1 [(1, map (\<lambda>i. [i]) cluster)] R of
               (Inl e, R1) \<Rightarrow> (Inl e, R1)
             | (Inr clusters, R1) \<Rightarrow>
                (let (start, R2) = reference_model P cluster R1
                 in case assemble clusters start R2 of
                      (Inl e, R3) \<Rightarrow> (Inl e, R3)
                    | (Inr (ent, J), R3) \<Rightarrow>
                       (let multipliers = to_multipliers E N J
                        in (Inr (if return_all then ReturnAll ent multipliers clusters
                                 else Multipliers multipliers), R3))))))"

subsection \<open>The growth rule, as the specification words it\<close>

text \<open>
  The unions that a transition evaluates: those of the pairs of clusters of the
  generation whose intersection has \<open>size - 1\<close> elements, in the order of the pairs.
\<close>

definition candidates :: "nat \<Rightarrow> cluster list \<Rightarrow> cluster list" where
  "candidates sz gen =
     map (\<lambda>(i, j). union1d (gen ! i) (gen ! j))
       (filter (\<lambda>(i, j). int (card (set (gen ! i) \<inter> set (gen ! j))) = int sz - 1)
          (pair_indices (length gen)))"

text \<open>
  Evaluating one candidate: it joins the next generation when the absolute value of its
  marginal entropy exceeds the threshold and it is not in that generation yet.
\<close>

definition evaluate_candidate :: "params \<Rightarrow> real \<Rightarrow> cluster \<Rightarrow> cluster list \<Rightarrow> registry
    \<Rightarrow> (error + cluster list) \<times> registry" where
  "evaluate_candidate P T = (\<lambda>gammaU newgen R.
     case dS P gammaU R of
       (Inl e, R') \<Rightarrow> (Inl e, R')
     | (Inr (s, j), R') \<Rightarrow>
         (Inr (if \<bar>s\<bar> > T \<and> gammaU \<notin> set newgen then newgen @ [gammaU] else newgen), R'))"

lemma for_loop_filter_map:
  "for_loop (\<lambda>x acc R. if q x then f (g x) acc R else (Inr acc, R)) xs acc R =
   for_loop f (map g (filter q xs)) acc R"
proof (induction xs arbitrary: acc R)
  case Nil
  then show ?case by simp
next
  case (Cons x xs)
  show ?case
  proof (cases "q x")
    case True
    then show ?thesis using Cons.IH by (cases "f (g x) acc R") (auto split: sum.splits)
  next
    case False
    then show ?thesis using Cons.IH by simp
  qed
qed

lemma pair_step_candidate:
  "pair_step P T sz gen =
   (\<lambda>x acc R. if (\<lambda>(i, j). int (card (set (gen ! i) \<inter> set (gen ! j))) = int sz - 1) x
               then evaluate_candidate P T ((\<lambda>(i, j). union1d (gen ! i) (gen ! j)) x) acc R
               else (Inr acc, R))"
  by (intro ext) (auto simp: pair_step_def evaluate_candidate_def dS_def Let_def length_intersect1d
        split: prod.splits)

lemma next_generation_candidates:
  "next_generation P T sz gen R = for_loop (evaluate_candidate P T) (candidates sz gen) [] R"
  unfolding next_generation_def candidates_def pair_step_candidate
  by (rule for_loop_filter_map)

lemma set_candidates: "set (candidates sz gen) = {u. from_pair sz gen u}"
proof -
  have "u \<in> set (candidates sz gen) \<longleftrightarrow> from_pair sz gen u" for u
  proof
    assume "u \<in> set (candidates sz gen)"
    then obtain i j where "(i, j) \<in> set (pair_indices (length gen))"
      "int (card (set (gen ! i) \<inter> set (gen ! j))) = int sz - 1" "u = union1d (gen ! i) (gen ! j)"
      unfolding candidates_def by auto
    then show "from_pair sz gen u" unfolding from_pair_def pair_indices_iff by blast
  next
    assume "from_pair sz gen u"
    then obtain i j where ij: "i < j" "j < length gen" "u = union1d (gen ! i) (gen ! j)"
      "int (card (set (gen ! i) \<inter> set (gen ! j))) = int sz - 1"
      unfolding from_pair_def by blast
    then have "(i, j) \<in> set (filter (\<lambda>(i, j). int (card (set (gen ! i) \<inter> set (gen ! j))) = int sz - 1)
          (pair_indices (length gen)))"
      by (simp add: pair_indices_iff)
    then show "u \<in> set (candidates sz gen)"
      unfolding candidates_def using ij(3) by (metis (mono_tags, lifting) image_eqI list.set_map old.prod.case)
  qed
  then show ?thesis by blast
qed

lemma candidate_Inr:
  assumes "evaluate_candidate P T u acc R = (Inr acc', R')"
  shows "\<exists>s j. dS P u R = (Inr (s, j), R') \<and>
           acc' = (if \<bar>s\<bar> > T \<and> u \<notin> set acc then acc @ [u] else acc)"
proof -
  obtain r t where d: "dS P u R = (r, t)" by (cases "dS P u R")
  show ?thesis
  proof (cases r)
    case (Inl e)
    then show ?thesis using assms d by (simp add: evaluate_candidate_def)
  next
    case (Inr sj)
    then show ?thesis using assms d by (cases sj) (auto simp: evaluate_candidate_def)
  qed
qed

lemma candidate_grows: "evaluate_candidate P T u acc R = (res, R') \<Longrightarrow> grows R R'"
proof -
  assume a: "evaluate_candidate P T u acc R = (res, R')"
  obtain r t where d: "dS P u R = (r, t)" by (cases "dS P u R")
  then have "R' = t" using a by (cases r) (auto simp: evaluate_candidate_def split: prod.splits)
  then show ?thesis using dS_grows[OF d] by simp
qed

lemma candidate_loop_grows: "for_loop (evaluate_candidate P T) cs acc R = (res, R') \<Longrightarrow> grows R R'"
  by (rule for_loop_rel[where Q = grows]) (auto intro: grows_refl grows_trans candidate_grows)

lemma candidate_loop_result:
  assumes "for_loop (evaluate_candidate P T) cs acc R = (Inr acc', R')" "distinct acc"
  shows "distinct acc' \<and>
         set acc' = set acc \<union> {u \<in> set cs. \<bar>the (deltaSdict R' (clusterID u))\<bar> > T} \<and>
         (\<forall>u\<in>set cs. clusterID u \<in> dom (deltaSdict R') \<and> clusterID u \<in> dom (deltaJdict R'))"
  using assms
proof (induction cs arbitrary: acc R)
  case Nil
  then show ?case by simp
next
  case (Cons u cs)
  obtain r t where st: "evaluate_candidate P T u acc R = (r, t)" by (cases "evaluate_candidate P T u acc R")
  show ?case
  proof (cases r)
    case (Inl e)
    then show ?thesis using Cons.prems st by simp
  next
    case (Inr acc1)
    have rest: "for_loop (evaluate_candidate P T) cs acc1 t = (Inr acc', R')"
      using Cons.prems(1) st Inr by simp
    obtain s j where d: "dS P u R = (Inr (s, j), t)"
      and acc1: "acc1 = (if \<bar>s\<bar> > T \<and> u \<notin> set acc then acc @ [u] else acc)"
      using candidate_Inr[of P T u acc R acc1 t] st Inr by auto
    have d1: "distinct acc1" using acc1 Cons.prems(2) by auto
    have g: "grows t R'" using candidate_loop_grows[OF rest] .
    have pt: "deltaSdict t (clusterID u) = Some s" "clusterID u \<in> dom (deltaJdict t)"
      using dS_post[OF d] by auto
    have pu: "deltaSdict R' (clusterID u) = Some s" "clusterID u \<in> dom (deltaJdict R')"
      using grows_value[OF g pt(1)] grows_domJ[OF g pt(2)] by auto
    from Cons.IH[OF rest d1]
    have IH: "distinct acc'"
      "set acc' = set acc1 \<union> {u \<in> set cs. \<bar>the (deltaSdict R' (clusterID u))\<bar> > T}"
      "\<forall>u\<in>set cs. clusterID u \<in> dom (deltaSdict R') \<and> clusterID u \<in> dom (deltaJdict R')"
      by auto
    have "set acc1 \<union> {u \<in> set cs. \<bar>the (deltaSdict R' (clusterID u))\<bar> > T} =
          set acc \<union> {v \<in> set (u # cs). \<bar>the (deltaSdict R' (clusterID v))\<bar> > T}"
      using acc1 pu(1) by auto
    then show ?thesis using IH pu by auto
  qed
qed

lemma next_generation_result:
  assumes "next_generation P T sz gen R = (Inr newgen, R')"
  shows "distinct newgen"
    and "set newgen = {u. from_pair sz gen u \<and> \<bar>the (deltaSdict R' (clusterID u))\<bar> > T}"
    and "\<forall>u. from_pair sz gen u \<longrightarrow> clusterID u \<in> dom (deltaSdict R') \<and> clusterID u \<in> dom (deltaJdict R')"
    and "grows R R'"
proof -
  have loop: "for_loop (evaluate_candidate P T) (candidates sz gen) [] R = (Inr newgen, R')"
    using assms by (simp add: next_generation_candidates)
  from candidate_loop_result[OF loop] show "distinct newgen"
    and "set newgen = {u. from_pair sz gen u \<and> \<bar>the (deltaSdict R' (clusterID u))\<bar> > T}"
    and "\<forall>u. from_pair sz gen u \<longrightarrow> clusterID u \<in> dom (deltaSdict R') \<and> clusterID u \<in> dom (deltaJdict R')"
    by (auto simp: set_candidates)
  show "grows R R'" using candidate_loop_grows[OF loop] .
qed

definition example_params :: params where
  "example_params = mk_params example_ext example_cooc True 0 None False None"

definition example_data :: matrix where
  "example_data = [[1, 1, 1], [1, -1, 1]]"

lemmas example_simps = deltaS.simps subsets.simps unique_def clusterID_def S_def example_ext_def
  example_cooc_def example_params_def example_data_def mk_params_def
  empty_registry_def log_event_def Let_def zeros_def msub_def madd_def mneg_def
  solve_def grow.simps next_generation_def pair_step_def pair_indices_def intersect1d_def
  union1d_def reference_model_def assemble_def add_cluster_def to_multipliers_def dS_def
  update_conv' cooc_at_def

text \<open>
  Claim C6 (amended). \<open>S\<close> uses the closed forms for clusters of size 1 and 2 only when
  it is called with \<open>useAnalyticResults=True\<close>. Without the flag, which is how \<open>deltaS\<close>
  calls it, \<open>S\<close> passes every non-empty cluster, of any size, to the numerical solver
  \<open>findJmatrixAnalytic_CoocMat\<close>; so the marginal contribution that \<open>deltaS\<close> computes
  for a singleton is built from the solver's matrix.
\<close>

theorem S_closed_forms_only_on_request:
  "(cluster \<noteq> [] \<longrightarrow>
      S E cluster coocMat False priorLmbda numSamples =
        Inr (analyticEntropy E
               (findJmatrixAnalytic_CoocMat E (coocCluster E coocMat cluster) priorLmbda numSamples),
             JfullFromCluster E
               (findJmatrixAnalytic_CoocMat E (coocCluster E coocMat cluster) priorLmbda numSamples)
               cluster (length coocMat))) \<and>
   (cooc_at coocMat i i = Inr p \<longrightarrow>
      S E [i] coocMat True priorLmbda numSamples =
        Inr (analyticEntropy E [[- ln (p / (1 - p))]],
             JfullFromCluster E [[- ln (p / (1 - p))]] [i] (length coocMat))) \<and>
   (cooc_at coocMat (min a b) (min a b) = Inr p_i \<and> cooc_at coocMat (max a b) (max a b) = Inr p_j \<and>
    cooc_at coocMat (min a b) (max a b) = Inr p_ij \<longrightarrow>
      S E [a, b] coocMat True priorLmbda numSamples =
        Inr (analyticEntropy E
               [[- ln ((p_i - p_ij) / (1 - p_i - p_j + p_ij)),
                 0.5 * (- ln p_ij + ln (p_i - p_ij) + ln (p_j - p_ij) - ln (1 - p_i - p_j + p_ij))],
                [0.5 * (- ln p_ij + ln (p_i - p_ij) + ln (p_j - p_ij) - ln (1 - p_i - p_j + p_ij)),
                 - ln ((p_j - p_ij) / (1 - p_i - p_j + p_ij))]],
             JfullFromCluster E
               [[- ln ((p_i - p_ij) / (1 - p_i - p_j + p_ij)),
                 0.5 * (- ln p_ij + ln (p_i - p_ij) + ln (p_j - p_ij) - ln (1 - p_i - p_j + p_ij))],
                [0.5 * (- ln p_ij + ln (p_i - p_ij) + ln (p_j - p_ij) - ln (1 - p_i - p_j + p_ij)),
                 - ln ((p_j - p_ij) / (1 - p_i - p_j + p_ij))]]
               [a, b] (length coocMat))) \<and>
   (independentRef \<noteq> meanFieldRef \<and> deltaSdict R (clusterID [i]) = None \<longrightarrow>
      fst (deltaS E [i] coocMat R meanFieldRef priorLmbda numSamples independentRef
             meanFieldPriorLmbda) =
        Inr (analyticEntropy E
               (findJmatrixAnalytic_CoocMat E (coocCluster E coocMat [i]) priorLmbda numSamples)
             - fst (refS (mk_params E coocMat meanFieldRef priorLmbda numSamples independentRef
                            meanFieldPriorLmbda) [i]),
             msub (JfullFromCluster E
                     (findJmatrixAnalytic_CoocMat E (coocCluster E coocMat [i]) priorLmbda numSamples)
                     [i] (length coocMat))
                  (snd (refS (mk_params E coocMat meanFieldRef priorLmbda numSamples independentRef
                            meanFieldPriorLmbda) [i]))))"
proof (intro conjI impI)
  assume "cluster \<noteq> []"
  then show "S E cluster coocMat False priorLmbda numSamples =
        Inr (analyticEntropy E
               (findJmatrixAnalytic_CoocMat E (coocCluster E coocMat cluster) priorLmbda numSamples),
             JfullFromCluster E
               (findJmatrixAnalytic_CoocMat E (coocCluster E coocMat cluster) priorLmbda numSamples)
               cluster (length coocMat))"
    by (simp add: S_def Let_def)
next
  assume "cooc_at coocMat i i = Inr p"
  then show "S E [i] coocMat True priorLmbda numSamples =
        Inr (analyticEntropy E [[- ln (p / (1 - p))]],
             JfullFromCluster E [[- ln (p / (1 - p))]] [i] (length coocMat))"
    by (simp add: S_def Let_def)
next
  assume "cooc_at coocMat (min a b) (min a b) = Inr p_i \<and> cooc_at coocMat (max a b) (max a b) = Inr p_j \<and>
    cooc_at coocMat (min a b) (max a b) = Inr p_ij"
  then show "S E [a, b] coocMat True priorLmbda numSamples =
        Inr (analyticEntropy E
               [[- ln ((p_i - p_ij) / (1 - p_i - p_j + p_ij)),
                 0.5 * (- ln p_ij + ln (p_i - p_ij) + ln (p_j - p_ij) - ln (1 - p_i - p_j + p_ij))],
                [0.5 * (- ln p_ij + ln (p_i - p_ij) + ln (p_j - p_ij) - ln (1 - p_i - p_j + p_ij)),
                 - ln ((p_j - p_ij) / (1 - p_i - p_j + p_ij))]],
             JfullFromCluster E
               [[- ln ((p_i - p_ij) / (1 - p_i - p_j + p_ij)),
                 0.5 * (- ln p_ij + ln (p_i - p_ij) + ln (p_j - p_ij) - ln (1 - p_i - p_j + p_ij))],
                [0.5 * (- ln p_ij + ln (p_i - p_ij) + ln (p_j - p_ij) - ln (1 - p_i - p_j + p_ij)),
                 - ln ((p_j - p_ij) / (1 - p_i - p_j + p_ij))]]
               [a, b] (length coocMat))"
    by (simp add: S_def Let_def)
next
  let ?P = "mk_params E coocMat meanFieldRef priorLmbda numSamples independentRef meanFieldPriorLmbda"
  assume a: "independentRef \<noteq> meanFieldRef \<and> deltaSdict R (clusterID [i]) = None"
  have fs: "fullS ?P [i] = Inr (analyticEntropy E
               (findJmatrixAnalytic_CoocMat E (coocCluster E coocMat [i]) priorLmbda numSamples),
             JfullFromCluster E
               (findJmatrixAnalytic_CoocMat E (coocCluster E coocMat [i]) priorLmbda numSamples)
               [i] (length coocMat))"
    by (simp add: fullS_def S_def Let_def mk_params_def)
  show "fst (deltaS E [i] coocMat R meanFieldRef priorLmbda numSamples independentRef
             meanFieldPriorLmbda) =
        Inr (analyticEntropy E
               (findJmatrixAnalytic_CoocMat E (coocCluster E coocMat [i]) priorLmbda numSamples)
             - fst (refS ?P [i]),
             msub (JfullFromCluster E
                     (findJmatrixAnalytic_CoocMat E (coocCluster E coocMat [i]) priorLmbda numSamples)
                     [i] (length coocMat))
                  (snd (refS ?P [i])))"
    using a fs by (simp add: deltaS_dS dS_unfold)
qed

theorem S_closed_forms_only_on_request_witness:
  "S example_ext [0, 1] example_cooc False 0 None =
     Inr (analyticEntropy example_ext
            (findJmatrixAnalytic_CoocMat example_ext (coocCluster example_ext example_cooc [0, 1]) 0 None),
          JfullFromCluster example_ext
            (findJmatrixAnalytic_CoocMat example_ext (coocCluster example_ext example_cooc [0, 1]) 0 None)
            [0, 1] (length example_cooc)) \<and>
   S example_ext [0] example_cooc True 0 None =
     Inr (analyticEntropy example_ext [[- ln ((1/2) / (1 - 1/2))]],
          JfullFromCluster example_ext [[- ln ((1/2) / (1 - 1/2))]] [0] (length example_cooc))"
proof -
  have c: "cooc_at example_cooc 0 0 = Inr (1/2)" by (simp add: cooc_at_def example_cooc_def)
  have n: "[0, 1 :: nat] \<noteq> []" by simp
  from S_closed_forms_only_on_request[of "[0, 1]" example_ext example_cooc 0 None 0 "1/2"] c n
  show ?thesis by blast
qed

text \<open>
  Claim C6 as stated fails: for the singleton \<open>[0]\<close> the interaction entry that \<open>deltaS\<close>
  computes is the one of the numerical solver (here the marker value \<open>1/2\<close>, the
  solver of the example returns the co-occurrence block itself), not the one of the
  closed form (here \<open>-ln 1 = 0\<close>).
\<close>

theorem deltaS_singleton_not_closed_form_counterexample:
  "(case fst (deltaS example_ext [0] example_cooc empty_registry True 0 None False None) of
      Inr (dS0, dJ0) \<Rightarrow> dJ0 0 0 = 1/2 | Inl e \<Rightarrow> False) \<and>
   (case S example_ext [0] example_cooc True 0 None of
      Inr (ent, J) \<Rightarrow> J 0 0 = 0 | Inl e \<Rightarrow> False)"
  by (simp add: example_simps)

subsection \<open>Reference-mode flags in solve\<close>











subsection \<open>Conversion of the result\<close>















text \<open>
  Claim C4. In the transition from size \<open>k\<close> to \<open>k + 1\<close> the unions that are evaluated
  (handed to \<open>deltaS\<close>) are exactly the unions of the pairs of clusters of the generation
  whose index sets share \<open>k - 1\<close> indices, each pair taken once; the loops of the code do
  what evaluating these candidates one after the other does. When the transition
  returns, the new generation has no duplicate and holds exactly the evaluated unions
  whose memoized marginal entropy exceeds the threshold in absolute value. The \<open>while\<close>
  loop returns the generations when the current one is empty, and goes on to the next
  size otherwise.
\<close>

theorem growth_rule:
  "set (candidates k gen) =
     {u. \<exists>i j. i < j \<and> j < length gen \<and> u = union1d (gen ! i) (gen ! j) \<and>
               int (card (set (gen ! i) \<inter> set (gen ! j))) = int k - 1} \<and>
   next_generation P T k gen R = for_loop (evaluate_candidate P T) (candidates k gen) [] R \<and>
   (next_generation P T k gen R = (Inr newgen, R') \<longrightarrow>
      distinct newgen \<and>
      set newgen = {u \<in> set (candidates k gen). \<bar>the (deltaSdict R' (clusterID u))\<bar> > T}) \<and>
   (map_of clusters k = Some [] \<longrightarrow> grow P T k clusters R = (Inr clusters, R)) \<and>
   (map_of clusters k = Some gen \<and> gen \<noteq> [] \<and> next_generation P T k gen R = (Inr newgen, R') \<longrightarrow>
      grow P T k clusters R = grow P T (k + 1) (AList.update (k + 1) newgen clusters) R')"
proof (intro conjI impI)
  show "set (candidates k gen) =
     {u. \<exists>i j. i < j \<and> j < length gen \<and> u = union1d (gen ! i) (gen ! j) \<and>
               int (card (set (gen ! i) \<inter> set (gen ! j))) = int k - 1}"
    unfolding set_candidates from_pair_def ..
  show "next_generation P T k gen R = for_loop (evaluate_candidate P T) (candidates k gen) [] R"
    by (rule next_generation_candidates)
next
  assume a: "next_generation P T k gen R = (Inr newgen, R')"
  show "distinct newgen" using next_generation_result(1)[OF a] .
  show "set newgen = {u \<in> set (candidates k gen). \<bar>the (deltaSdict R' (clusterID u))\<bar> > T}"
    using next_generation_result(2)[OF a] by (auto simp: set_candidates)
next
  assume "map_of clusters k = Some []"
  then show "grow P T k clusters R = (Inr clusters, R)" by (subst grow.simps) simp
next
  assume "map_of clusters k = Some gen \<and> gen \<noteq> [] \<and> next_generation P T k gen R = (Inr newgen, R')"
  then show "grow P T k clusters R = grow P T (k + 1) (AList.update (k + 1) newgen clusters) R'"
    by (subst grow.simps) simp
qed

lemma example_next_generation_fst:
  "fst (next_generation example_params (1/2) 1 [[0], [1], [2]] empty_registry) =
     Inr [[0, 1], [0, 2], [1, 2]]"
  by (simp add: example_simps)

theorem growth_rule_witness:
  "\<exists>R'. next_generation example_params (1/2) 1 [[0], [1], [2]] empty_registry
           = (Inr [[0, 1], [0, 2], [1, 2]], R') \<and>
     distinct [[0, 1], [0, 2], [1, 2 :: nat]] \<and>
     set [[0, 1], [0, 2], [1, 2]] =
       {u \<in> set (candidates 1 [[0], [1], [2]]). \<bar>the (deltaSdict R' (clusterID u))\<bar> > 1/2} \<and>
     grow example_params (1/2) 1 [(1, [[0], [1], [2]])] empty_registry =
       grow example_params (1/2) (1 + 1)
         (AList.update (1 + 1) [[0, 1], [0, 2], [1, 2]] [(1, [[0], [1], [2]])]) R' \<and>
     grow example_params (1/2) 4 [(4, [])] empty_registry = (Inr [(4, [])], empty_registry)"
proof -
  obtain R' where n: "next_generation example_params (1/2) 1 [[0], [1], [2]] empty_registry
           = (Inr [[0, 1], [0, 2], [1, 2]], R')"
    using example_next_generation_fst
    by (cases "next_generation example_params (1/2) 1 [[0], [1], [2]] empty_registry") auto
  have m: "map_of [(1 :: nat, [[0], [1], [2 :: nat]])] 1 = Some [[0], [1], [2]]" by simp
  have e: "map_of [(4 :: nat, [] :: cluster list)] 4 = Some []" by simp
  from growth_rule[of 1 "[[0], [1], [2]]" example_params "1/2" empty_registry
      "[[0, 1], [0, 2], [1, 2]]" R' "[(1, [[0], [1], [2]])]"] n m
  have a: "distinct [[0, 1], [0, 2], [1, 2 :: nat]] \<and>
     set [[0, 1], [0, 2], [1, 2]] =
       {u \<in> set (candidates 1 [[0], [1], [2]]). \<bar>the (deltaSdict R' (clusterID u))\<bar> > 1/2} \<and>
     grow example_params (1/2) 1 [(1, [[0], [1], [2]])] empty_registry =
       grow example_params (1/2) (1 + 1)
         (AList.update (1 + 1) [[0, 1], [0, 2], [1, 2]] [(1, [[0], [1], [2]])]) R'"
    by blast
  from growth_rule[of 4 "[]" example_params "1/2" empty_registry "[]" empty_registry "[(4, [])]"] e
  have b: "grow example_params (1/2) 4 [(4, [])] empty_registry = (Inr [(4, [])], empty_registry)"
    by blast
  show ?thesis using n a b by blast
qed

subsection \<open>The registry invariant: subsets are stored before supersets\<close>

definition stored_before :: "event list \<Rightarrow> cid \<Rightarrow> cid \<Rightarrow> bool" where
  "stored_before es k1 k2 \<longleftrightarrow>
     (\<exists>i j. i < j \<and> j < length es \<and> es ! i = Store k1 \<and> es ! j = Store k2)"

text \<open>
  The two dictionaries have the same keys, which are the identities written so far,
  each a strictly sorted list; and when an identity was written, the identity of every
  non-empty proper subset of it had been written before.
\<close>

definition registry_inv :: "registry \<Rightarrow> bool" where
  "registry_inv R \<longleftrightarrow>
     dom (deltaSdict R) = dom (deltaJdict R) \<and>
     dom (deltaSdict R) = {k. Store k \<in> set (events R)} \<and>
     (\<forall>k\<in>dom (deltaSdict R). sorted k \<and> distinct k) \<and>
     (\<forall>j<length (events R). \<forall>k. events R ! j = Store k \<longrightarrow>
        (\<forall>A. A \<noteq> {} \<and> A \<subset> set k \<longrightarrow> (\<exists>i<j. events R ! i = Store (sorted_list_of_set A))))"

lemma registry_invI:
  assumes "dom (deltaSdict R) = dom (deltaJdict R)"
    and "dom (deltaSdict R) = {k. Store k \<in> set (events R)}"
    and "\<And>k. k \<in> dom (deltaSdict R) \<Longrightarrow> sorted k \<and> distinct k"
    and "\<And>j k A. j < length (events R) \<Longrightarrow> events R ! j = Store k \<Longrightarrow> A \<noteq> {} \<Longrightarrow> A \<subset> set k
           \<Longrightarrow> \<exists>i<j. events R ! i = Store (sorted_list_of_set A)"
  shows "registry_inv R"
  unfolding registry_inv_def
proof (intro conjI)
  show "dom (deltaSdict R) = dom (deltaJdict R)" by (rule assms(1))
  show "dom (deltaSdict R) = {k. Store k \<in> set (events R)}" by (rule assms(2))
  show "\<forall>k\<in>dom (deltaSdict R). sorted k \<and> distinct k" using assms(3) by blast
  show "\<forall>j<length (events R). \<forall>k. events R ! j = Store k \<longrightarrow>
        (\<forall>A. A \<noteq> {} \<and> A \<subset> set k \<longrightarrow> (\<exists>i<j. events R ! i = Store (sorted_list_of_set A)))"
    using assms(4) by blast
qed

lemma registry_invD:
  assumes "registry_inv R"
  shows "dom (deltaSdict R) = dom (deltaJdict R)"
    and "dom (deltaSdict R) = {k. Store k \<in> set (events R)}"
    and "\<And>k. k \<in> dom (deltaSdict R) \<Longrightarrow> sorted k \<and> distinct k"
    and "\<And>j k A. j < length (events R) \<Longrightarrow> events R ! j = Store k \<Longrightarrow> A \<noteq> {} \<Longrightarrow> A \<subset> set k
           \<Longrightarrow> \<exists>i<j. events R ! i = Store (sorted_list_of_set A)"
proof -
  show "dom (deltaSdict R) = dom (deltaJdict R)" using assms unfolding registry_inv_def by (elim conjE)
  show "dom (deltaSdict R) = {k. Store k \<in> set (events R)}"
    using assms unfolding registry_inv_def by (elim conjE)
  show "\<And>k. k \<in> dom (deltaSdict R) \<Longrightarrow> sorted k \<and> distinct k"
    using assms unfolding registry_inv_def by (elim conjE) (erule bspec)
  show "\<And>j k A. j < length (events R) \<Longrightarrow> events R ! j = Store k \<Longrightarrow> A \<noteq> {} \<Longrightarrow> A \<subset> set k
           \<Longrightarrow> \<exists>i<j. events R ! i = Store (sorted_list_of_set A)"
  proof -
    fix j k A
    assume h: "j < length (events R)" "events R ! j = Store k" "A \<noteq> {}" "A \<subset> set k"
    have "\<forall>j<length (events R). \<forall>k. events R ! j = Store k \<longrightarrow>
        (\<forall>A. A \<noteq> {} \<and> A \<subset> set k \<longrightarrow> (\<exists>i<j. events R ! i = Store (sorted_list_of_set A)))"
      using assms unfolding registry_inv_def by (elim conjE)
    then have "\<forall>A. A \<noteq> {} \<and> A \<subset> set k \<longrightarrow> (\<exists>i<j. events R ! i = Store (sorted_list_of_set A))"
      using h(1,2) by (elim allE[of _ j] allE[of _ k] impE) assumption+
    then show "\<exists>i<j. events R ! i = Store (sorted_list_of_set A)" using h(3,4) by blast
  qed
qed

lemma registry_inv_empty: "registry_inv empty_registry"
  by (rule registry_invI) (simp_all add: empty_registry_def)

lemma registry_inv_log:
  assumes "registry_inv R" "\<forall>k. e \<noteq> Store k"
  shows "registry_inv (log_event e R)"
proof (rule registry_invI)
  let ?es = "events R"
  note D = registry_invD[OF assms(1)]
  have ev: "events (log_event e R) = ?es @ [e]" by (simp add: log_event_def)
  have d: "deltaSdict (log_event e R) = deltaSdict R" "deltaJdict (log_event e R) = deltaJdict R"
    by (simp_all add: log_event_def)
  show "dom (deltaSdict (log_event e R)) = dom (deltaJdict (log_event e R))"
    unfolding d by (rule D(1))
  show "dom (deltaSdict (log_event e R)) = {k. Store k \<in> set (events (log_event e R))}"
    unfolding d ev D(2) using assms(2) by auto
  show "sorted k \<and> distinct k" if "k \<in> dom (deltaSdict (log_event e R))" for k
    using that D(3) unfolding d by blast
  show "\<exists>i<j. events (log_event e R) ! i = Store (sorted_list_of_set A)"
    if h: "j < length (events (log_event e R))" "events (log_event e R) ! j = Store k"
      "A \<noteq> {}" "A \<subset> set k" for j k A
  proof -
    have jl: "j < length ?es" using h(1,2) assms(2) unfolding ev by (cases "j = length ?es") auto
    then have "?es ! j = Store k" using h(2) unfolding ev by (simp add: nth_append)
    from D(4)[OF jl this h(3,4)] obtain i where i: "i < j" "?es ! i = Store (sorted_list_of_set A)"
      by blast
    then have "(?es @ [e]) ! i = Store (sorted_list_of_set A)" using jl by (simp add: nth_append)
    then show ?thesis unfolding ev using i(1) by blast
  qed
qed

lemma ref_event_not_store: "\<forall>k. ref_event P c \<noteq> Store k"
  by (simp add: ref_event_def)

lemma registry_inv_store:
  assumes inv: "registry_inv R" and k: "sorted k" "distinct k"
    and sub: "\<forall>A. A \<noteq> {} \<and> A \<subset> set k \<longrightarrow> sorted_list_of_set A \<in> dom (deltaSdict R)"
  shows "registry_inv (store k a b R)"
proof (rule registry_invI)
  let ?es = "events R"
  note D = registry_invD[OF inv]
  have ev: "events (store k a b R) = ?es @ [Store k]" by (simp add: store_def log_event_def)
  show "dom (deltaSdict (store k a b R)) = {k'. Store k' \<in> set (events (store k a b R))}"
    unfolding store_dom ev D(2) by auto
  show "dom (deltaSdict (store k a b R)) = dom (deltaJdict (store k a b R))"
    unfolding store_dom D(1) ..
  show "sorted k' \<and> distinct k'" if "k' \<in> dom (deltaSdict (store k a b R))" for k'
    using that D(3) k unfolding store_dom by blast
  show "\<exists>i<j. events (store k a b R) ! i = Store (sorted_list_of_set A)"
    if h: "j < length (events (store k a b R))" "events (store k a b R) ! j = Store k'"
      "A \<noteq> {}" "A \<subset> set k'" for j k' A
  proof (cases "j < length ?es")
    case True
    then have "?es ! j = Store k'" using h(2) unfolding ev by (simp add: nth_append)
    from D(4)[OF True this h(3,4)] obtain i where i: "i < j" "?es ! i = Store (sorted_list_of_set A)"
      by blast
    then have "(?es @ [Store k]) ! i = Store (sorted_list_of_set A)"
      using True by (simp add: nth_append)
    then show ?thesis unfolding ev using i(1) by blast
  next
    case False
    then have j: "j = length ?es" using h(1) unfolding ev by simp
    then have "k' = k" using h(2) unfolding ev by simp
    then have "sorted_list_of_set A \<in> dom (deltaSdict R)" using sub h(3,4) by blast
    then have "Store (sorted_list_of_set A) \<in> set ?es" unfolding D(2) by simp
    then obtain i where i: "i < length ?es" "?es ! i = Store (sorted_list_of_set A)"
      unfolding in_set_conv_nth by blast
    then have "(?es @ [Store k]) ! i = Store (sorted_list_of_set A)" by (simp add: nth_append)
    then show ?thesis unfolding ev using i(1) j by blast
  qed
qed

lemma for_loop_state_inv:
  assumes "for_loop body xs a s = (res, s')" and "I s"
    and "\<And>x a t r t'. x \<in> set xs \<Longrightarrow> I t \<Longrightarrow> body x a t = (r, t') \<Longrightarrow> I t'"
  shows "I s'"
proof -
  have "I s \<longrightarrow> I s'"
    by (rule for_loop_rel[OF assms(1), where Q = "\<lambda>s s'. I s \<longrightarrow> I s'"]) (use assms(3) in blast)+
  then show ?thesis using assms(2) by simp
qed

lemma sub_step_state:
  assumes "sub_step P x acc R = (res, R')"
  shows "\<exists>r. dS P x R = (r, R')"
proof -
  obtain r t where d: "dS P x R = (r, t)" by (cases "dS P x R")
  then have "R' = t" using assms unfolding sub_step_def
    by (cases r; cases acc) (auto split: prod.splits)
  then show ?thesis using d by simp
qed

lemma sizes_loop_state_inv:
  assumes loop: "for_loop (size_step P c) (rev [1..<length c]) start R = (res, R')"
    and I: "I R"
    and step: "\<And>x t r t'. length x < length c \<Longrightarrow> I t \<Longrightarrow> dS P x t = (r, t') \<Longrightarrow> I t'"
  shows "I R'"
proof (rule for_loop_state_inv[where I = I, OF loop I])
  fix k a t r t'
  assume k: "k \<in> set (rev [1..<length c])" and t: "I t" and s: "size_step P c k a t = (r, t')"
  show "I t'"
  proof (cases "subsets c (int k) False")
    case (Inl e)
    then show ?thesis using s t by (simp add: size_step_def)
  next
    case (Inr subs)
    have kk: "0 < k" "k < length c" using k by auto
    have inner: "for_loop (sub_step P) subs a t = (r, t')" using s Inr by (simp add: size_step_def)
    show ?thesis
    proof (rule for_loop_state_inv[where I = I, OF inner t])
      fix x a' u r' u'
      assume x: "x \<in> set subs" and u: "I u" and st: "sub_step P x a' u = (r', u')"
      have "length x < length c" using subsets_length[OF Inr kk(1) x] kk(2) by simp
      then show "I u'" using step[OF _ u] sub_step_state[OF st] by blast
    qed
  qed
qed

lemma dS_registry_inv: "registry_inv R \<Longrightarrow> dS P c R = (res, R') \<Longrightarrow> registry_inv R'"
proof (induction "length c" arbitrary: c R res R' rule: less_induct)
  case less
  show ?case
  proof (cases "good_flags P \<and> deltaSdict R (clusterID c) = None")
    case False
    then have "R' = R" using less.prems(2)
      by (auto simp: dS_unfold split: option.splits if_splits)
    then show ?thesis using less.prems(1) by simp
  next
    case True
    then have gf: "good_flags P" and None: "deltaSdict R (clusterID c) = None" by auto
    show ?thesis
    proof (cases "fullS P c")
      case (Inl e)
      then have "R' = log_event (CallS c) R" using less.prems(2) gf None by (simp add: dS_unfold)
      then show ?thesis using registry_inv_log[OF less.prems(1)] by simp
    next
      case (Inr r)
      obtain ent Jf where r: "r = (ent, Jf)" by (cases r)
      define R2 where "R2 = log_event (ref_event P c) (log_event (CallS c) R)"
      define start where "start = (ent - fst (refS P c), msub Jf (snd (refS P c)))"
      obtain res3 R3 where loop: "for_loop (size_step P c) (rev [1..<length c]) start R2 = (res3, R3)"
        by (cases "for_loop (size_step P c) (rev [1..<length c]) start R2")
      have i2: "registry_inv R2"
        unfolding R2_def
        by (intro registry_inv_log less.prems(1) ref_event_not_store) simp
      have i3: "registry_inv R3"
      proof (rule sizes_loop_state_inv[where I = registry_inv, OF loop i2])
        fix x t r' t'
        assume "length x < length c" "registry_inv t" "dS P x t = (r', t')"
        then show "registry_inv t'" using less.hyps[of x t r' t'] by simp
      qed
      show ?thesis
      proof (cases res3)
        case (Inl e)
        then have "R' = R3" using less.prems(2) gf None Inr r loop
          by (simp add: dS_unfold R2_def start_def)
        then show ?thesis using i3 by simp
      next
        case res3: (Inr ab)
        obtain a b where ab: "ab = (a, b)" by (cases ab)
        have resR: "res = Inr (a, b)" "R' = store (clusterID c) a b R3"
          using less.prems(2) gf None Inr r loop res3 ab
          by (simp_all add: dS_unfold R2_def start_def)
        have d: "distinct c"
        proof (rule ccontr)
          assume "\<not> distinct c"
          then show False using sizes_loop_not_distinct[of c P start R2] loop res3 by simp
        qed
        have loop': "for_loop (sub_step P) (proper_subclusters c) start R2 = (Inr (a, b), R3)"
          using loop res3 ab sizes_loop_proper[OF d, of P start R2] by simp
        have dom: "\<forall>x\<in>set (proper_subclusters c). clusterID x \<in> dom (deltaSdict R3)"
          using sub_loop_value[OF loop'[unfolded start_def]] by blast
        note ps = proper_subclusters_sets[OF d]
        have sub: "\<forall>A. A \<noteq> {} \<and> A \<subset> set (clusterID c) \<longrightarrow>
                     sorted_list_of_set A \<in> dom (deltaSdict R3)"
        proof (intro allI impI)
          fix A assume A: "A \<noteq> {} \<and> A \<subset> set (clusterID c)"
          then have "A \<in> Pow (set c) - {{}, set c}" by (auto simp: clusterID_def)
          then have "A \<in> set (map set (proper_subclusters c))" using ps(2) by simp
          then obtain x where x: "x \<in> set (proper_subclusters c)" "A = set x" by auto
          then have "clusterID x = sorted_list_of_set A"
            using ps(3) clusterID_sorted_list_of_set by auto
          then show "sorted_list_of_set A \<in> dom (deltaSdict R3)" using dom x(1) by metis
        qed
        have "registry_inv (store (clusterID c) a b R3)"
          by (rule registry_inv_store[OF i3 _ _ sub]) (simp_all add: clusterID_def d)
        then show ?thesis using resR(2) by simp
      qed
    qed
  qed
qed

lemma sorted_distinct_key: "sorted k \<Longrightarrow> distinct k \<Longrightarrow> sorted_list_of_set (set k) = k"
  by (simp add: sorted_list_of_set_sort_remdups distinct_remdups_id sorted_sort_id)

lemma registry_inv_subsets:
  assumes inv: "registry_inv R" and k: "k \<in> dom (deltaSdict R)" and A: "A \<noteq> {}" "A \<subseteq> set k"
  shows "sorted_list_of_set A \<in> dom (deltaSdict R)"
    and "sorted_list_of_set A \<in> dom (deltaJdict R)"
    and "A \<subset> set k \<Longrightarrow> stored_before (events R) (sorted_list_of_set A) k"
proof -
  note D = registry_invD[OF inv]
  have sk: "sorted k \<and> distinct k" using D(3)[OF k] .
  have "Store k \<in> set (events R)" using k unfolding D(2) by simp
  then obtain j where j: "j < length (events R)" "events R ! j = Store k"
    unfolding in_set_conv_nth by blast
  have sb: "stored_before (events R) (sorted_list_of_set A) k" if "A \<subset> set k"
  proof -
    from D(4)[OF j A(1) that] obtain i where "i < j" "events R ! i = Store (sorted_list_of_set A)"
      by blast
    then show ?thesis unfolding stored_before_def using j by blast
  qed
  show a: "sorted_list_of_set A \<in> dom (deltaSdict R)"
  proof (cases "A = set k")
    case True
    then have "sorted_list_of_set A = k" using sk sorted_distinct_key by blast
    then show ?thesis using k by simp
  next
    case False
    then have "A \<subset> set k" using A(2) by blast
    then obtain i j' where "i < j'" "j' < length (events R)"
        "events R ! i = Store (sorted_list_of_set A)"
      using sb unfolding stored_before_def by blast
    then have "i < length (events R)" "events R ! i = Store (sorted_list_of_set A)" by simp_all
    then have "Store (sorted_list_of_set A) \<in> set (events R)" by (metis nth_mem)
    then show ?thesis unfolding D(2) by simp
  qed
  show "sorted_list_of_set A \<in> dom (deltaJdict R)" using a unfolding D(1) .
  show "A \<subset> set k \<Longrightarrow> stored_before (events R) (sorted_list_of_set A) k" using sb .
qed

text \<open>
  Claim C10. Let the registry satisfy the invariant (the empty registry does). When
  \<open>deltaS(cluster)\<close> returns, the registry satisfies the invariant again, both
  dictionaries have an entry for the identity of the cluster and for the identity of
  every non-empty subset of its indices, and the entry of every non-empty proper subset
  was written before the entry of the cluster.
\<close>

theorem deltaS_subsets_before_supersets:
  assumes "registry_inv R"
    and "deltaS E cluster coocMat R meanFieldRef priorLmbda numSamples independentRef
           meanFieldPriorLmbda = (Inr r, R')"
  shows "registry_inv R' \<and>
         clusterID cluster \<in> dom (deltaSdict R') \<and> clusterID cluster \<in> dom (deltaJdict R') \<and>
         (\<forall>A. A \<noteq> {} \<and> A \<subseteq> set cluster \<longrightarrow>
              sorted_list_of_set A \<in> dom (deltaSdict R') \<and>
              sorted_list_of_set A \<in> dom (deltaJdict R')) \<and>
         (\<forall>A. A \<noteq> {} \<and> A \<subset> set cluster \<longrightarrow>
              stored_before (events R') (sorted_list_of_set A) (clusterID cluster))"
proof -
  let ?P = "mk_params E coocMat meanFieldRef priorLmbda numSamples independentRef meanFieldPriorLmbda"
  have ret: "dS ?P cluster R = (Inr r, R')" using assms(2) by (simp add: deltaS_dS)
  have inv: "registry_inv R'" using dS_registry_inv[OF assms(1) ret] .
  have k: "clusterID cluster \<in> dom (deltaSdict R')" "clusterID cluster \<in> dom (deltaJdict R')"
    using dS_post[OF ret] by auto
  have s: "set (clusterID cluster) = set cluster" by (simp add: clusterID_def)
  have a: "sorted_list_of_set A \<in> dom (deltaSdict R') \<and> sorted_list_of_set A \<in> dom (deltaJdict R')"
    if "A \<noteq> {} \<and> A \<subseteq> set cluster" for A
    using registry_inv_subsets(1,2)[OF inv k(1), of A] that unfolding s by blast
  have b: "stored_before (events R') (sorted_list_of_set A) (clusterID cluster)"
    if "A \<noteq> {} \<and> A \<subset> set cluster" for A
    using registry_inv_subsets(3)[OF inv k(1), of A] that unfolding s by blast
  show ?thesis
    by (intro conjI allI impI; (rule inv | rule k | use a b in blast))
qed

theorem deltaS_subsets_before_supersets_witness:
  "\<exists>r R'. deltaS example_ext [0, 1] example_cooc empty_registry False 0 None True None = (Inr r, R') \<and>
     registry_inv R' \<and>
     clusterID [0, 1] \<in> dom (deltaSdict R') \<and> clusterID [0, 1] \<in> dom (deltaJdict R') \<and>
     (\<forall>A. A \<noteq> {} \<and> A \<subseteq> set [0, 1] \<longrightarrow>
          sorted_list_of_set A \<in> dom (deltaSdict R') \<and>
          sorted_list_of_set A \<in> dom (deltaJdict R')) \<and>
     (\<forall>A. A \<noteq> {} \<and> A \<subset> set [0, 1] \<longrightarrow>
          stored_before (events R') (sorted_list_of_set A) (clusterID [0, 1]))"
proof -
  obtain r R' where
    ret: "deltaS example_ext [0, 1] example_cooc empty_registry False 0 None True None = (Inr r, R')"
    using deltaS_returns[of "[0, 1]" True False empty_registry example_ext example_cooc 0 None None]
    by (auto simp: empty_registry_def)
  note t = deltaS_subsets_before_supersets[OF registry_inv_empty ret]
  show ?thesis
    by (rule exI[of _ r], rule exI[of _ R'], rule conjI[OF ret t])
qed

subsection \<open>What the generations hold\<close>

lemma grow_rule:
  assumes "grow P T sz clusters R = (Inr final, R')" and "I sz clusters R"
    and "\<And>sz clusters R gen newgen R1.
           I sz clusters R \<Longrightarrow> map_of clusters sz = Some gen \<Longrightarrow> gen \<noteq> [] \<Longrightarrow>
           next_generation P T sz gen R = (Inr newgen, R1) \<Longrightarrow>
           I (sz + 1) (AList.update (sz + 1) newgen clusters) R1"
  shows "\<exists>szf. I szf final R' \<and> map_of final szf = Some []"
  using assms
proof (induction P T sz clusters R rule: grow.induct)
  case (1 P T sz clusters R)
  note step = "1.prems"(3)
  have eq: "grow P T sz clusters R =
     (case map_of clusters sz of
        None \<Rightarrow> (Inl KeyError, R)
      | Some gen \<Rightarrow>
          if length gen > 0 then
            (case next_generation P T sz gen R of
               (Inl e, R') \<Rightarrow> (Inl e, R')
             | (Inr newgen, R') \<Rightarrow> grow P T (sz + 1) (AList.update (sz + 1) newgen clusters) R')
          else (Inr clusters, R))"
    by (rule grow.simps)
  note p = "1.prems"(1)[unfolded eq]
  obtain gen where gen: "map_of clusters sz = Some gen"
    using p by (cases "map_of clusters sz") simp_all
  show ?case
  proof (cases "gen = []")
    case True
    then have "final = clusters" "R' = R"
      using p gen by simp_all
    then show ?thesis using "1.prems"(2) gen True by blast
  next
    case False
    obtain res R1 where ng: "next_generation P T sz gen R = (res, R1)"
      by (cases "next_generation P T sz gen R")
    obtain newgen where res: "res = Inr newgen"
      using p gen False ng by (cases res) simp_all
    have rec: "grow P T (sz + 1) (AList.update (sz + 1) newgen clusters) R1 = (Inr final, R')"
      using p gen False ng res by simp
    have I': "I (sz + 1) (AList.update (sz + 1) newgen clusters) R1"
      using step[OF "1.prems"(2) gen False ng[unfolded res]] .
    show ?thesis
    proof (rule "1.IH"[OF gen _ ng[symmetric] res rec I'])
      show "0 < length gen" using False by simp
      fix sz' clusters' R'' gen' newgen' R1'
      assume "I sz' clusters' R''" "map_of clusters' sz' = Some gen'" "gen' \<noteq> []"
        "next_generation P T sz' gen' R'' = (Inr newgen', R1')"
      then show "I (sz' + 1) (AList.update (sz' + 1) newgen' clusters') R1'" by (rule step)
    qed
  qed
qed

definition gens_ok :: "nat set \<Rightarrow> (nat \<times> cluster list) list \<Rightarrow> bool" where
  "gens_ok U clusters \<longleftrightarrow>
     (\<forall>k gen. map_of clusters k = Some gen \<longrightarrow>
        (\<forall>c\<in>set gen. length c = k \<and> distinct c \<and> sorted c \<and> set c \<subseteq> U))"

lemma distinct_union1d [simp]: "distinct (union1d a b)"
  by (simp add: union1d_def)

lemma sorted_union1d [simp]: "sorted (union1d a b)"
  by (simp add: union1d_def)

lemma from_pair_ok:
  assumes gen: "\<forall>c\<in>set gen. length c = k \<and> distinct c \<and> sorted c \<and> set c \<subseteq> U"
    and fp: "from_pair k gen u"
  shows "length u = k + 1 \<and> distinct u \<and> sorted u \<and> set u \<subseteq> U"
proof -
  obtain i j where ij: "i < j" "j < length gen" "u = union1d (gen ! i) (gen ! j)"
    "int (card (set (gen ! i) \<inter> set (gen ! j))) = int k - 1"
    using fp unfolding from_pair_def by blast
  have gi: "gen ! i \<in> set gen" and gj: "gen ! j \<in> set gen" using ij(1,2) by auto
  have ci: "card (set (gen ! i)) = k" and cj: "card (set (gen ! j)) = k"
    using gen gi gj by (auto simp: distinct_card)
  have "card (set (gen ! i)) + card (set (gen ! j)) =
        card (set (gen ! i) \<union> set (gen ! j)) + card (set (gen ! i) \<inter> set (gen ! j))"
    by (rule card_Un_Int) simp_all
  then have "card (set (gen ! i) \<union> set (gen ! j)) = k + 1" using ci cj ij(4) by linarith
  moreover have "set (union1d (gen ! i) (gen ! j)) = set (gen ! i) \<union> set (gen ! j)"
    by (simp add: union1d_def unique_def)
  moreover have "length (union1d (gen ! i) (gen ! j)) = card (set (union1d (gen ! i) (gen ! j)))"
    by (rule distinct_card[symmetric]) (rule distinct_union1d)
  ultimately have "length u = k + 1" unfolding ij(3) by simp
  moreover have "set u \<subseteq> U" unfolding ij(3) using gen gi gj by auto
  ultimately show ?thesis unfolding ij(3) by simp
qed

lemma gens_ok_update:
  assumes "gens_ok U clusters" "\<forall>c\<in>set newgen. length c = k \<and> distinct c \<and> sorted c \<and> set c \<subseteq> U"
  shows "gens_ok U (AList.update k newgen clusters)"
  unfolding gens_ok_def
proof (intro allI impI)
  fix k' gen
  assume m: "map_of (AList.update k newgen clusters) k' = Some gen"
  show "\<forall>c\<in>set gen. length c = k' \<and> distinct c \<and> sorted c \<and> set c \<subseteq> U"
  proof (cases "k' = k")
    case True
    then have "gen = newgen" using m by (simp add: update_conv')
    then show ?thesis using assms(2) True by simp
  next
    case False
    then have "map_of clusters k' = Some gen" using m by (simp add: update_conv')
    then show ?thesis using assms(1) unfolding gens_ok_def by blast
  qed
qed

lemma gens_ok_step:
  assumes ok: "gens_ok U clusters" and m: "map_of clusters sz = Some gen"
    and ng: "next_generation P T sz gen R = (Inr newgen, R1)"
  shows "gens_ok U (AList.update (sz + 1) newgen clusters)"
proof (rule gens_ok_update[OF ok])
  have g: "\<forall>c\<in>set gen. length c = sz \<and> distinct c \<and> sorted c \<and> set c \<subseteq> U"
    using ok m unfolding gens_ok_def by blast
  show "\<forall>c\<in>set newgen. length c = sz + 1 \<and> distinct c \<and> sorted c \<and> set c \<subseteq> U"
  proof
    fix c assume "c \<in> set newgen"
    then have "from_pair sz gen c" using next_generation_from_pair[OF ng] by blast
    then show "length c = sz + 1 \<and> distinct c \<and> sorted c \<and> set c \<subseteq> U"
      by (rule from_pair_ok[OF g])
  qed
qed

lemma gens_ok_start: "gens_ok (set cluster) [(1, map (\<lambda>i. [i]) cluster)]"
  unfolding gens_ok_def
proof (intro allI impI)
  fix k :: nat and gen :: "cluster list"
  assume "map_of [(1, map (\<lambda>i. [i]) cluster)] k = Some gen"
  then have k: "k = 1" "gen = map (\<lambda>i. [i]) cluster" by (simp_all split: if_splits)
  show "\<forall>c\<in>set gen. length c = k \<and> distinct c \<and> sorted c \<and> set c \<subseteq> set cluster"
    unfolding k by auto
qed

lemma grow_gens_ok:
  assumes "grow P T sz clusters R = (Inr final, R')" "gens_ok U clusters"
  shows "gens_ok U final \<and> (\<exists>k. map_of final k = Some [])"
proof -
  have "\<exists>szf. gens_ok U final \<and> map_of final szf = Some []"
  proof (rule grow_rule[OF assms(1), where I = "\<lambda>sz clusters R. gens_ok U clusters"])
    show "gens_ok U clusters" by (rule assms(2))
  next
    fix sz clusters R gen newgen R1
    assume "gens_ok U clusters" "map_of clusters sz = Some gen"
      "next_generation P T sz gen R = (Inr newgen, R1)"
    then show "gens_ok U (AList.update (sz + 1) newgen clusters)" by (rule gens_ok_step)
  qed
  then show ?thesis by blast
qed


text \<open>
  The names of the parameters of \<open>solve\<close> (lines 1106 to 1110 of solvers.py); the
  signature has no \<open>**kwargs\<close>.
\<close>

definition solve_keywords :: "string list" where
  "solve_keywords = [''X'', ''threshold'', ''cluster'', ''deltaSdict'', ''deltaJdict'', ''verbose'',
     ''priorLmbda'', ''numSamples'', ''meanFieldRef'', ''independentRef'', ''veryVerbose'',
     ''meanFieldPriorLmbda'', ''return_all'']"

text \<open>
  A call of \<open>solve\<close> that passes the arguments named \<open>keywords\<close> by keyword. Python binds
  the arguments before the body runs and raises TypeError for a keyword that is not a
  parameter of the function; otherwise the body runs, with the values of the arguments
  (the defaults for those left out).
\<close>

definition call_solve :: "string list \<Rightarrow> ext \<Rightarrow> matrix \<Rightarrow> real \<Rightarrow> cluster option \<Rightarrow> registry
    \<Rightarrow> real \<Rightarrow> real option \<Rightarrow> bool \<Rightarrow> bool \<Rightarrow> real option \<Rightarrow> bool
    \<Rightarrow> (error + solve_result) \<times> registry" where
  "call_solve keywords E X threshold cluster R priorLmbda numSamples meanFieldRef independentRef
      meanFieldPriorLmbda return_all =
     (if set keywords \<subseteq> set solve_keywords
      then solve E X threshold cluster R priorLmbda numSamples meanFieldRef independentRef
             meanFieldPriorLmbda return_all
      else (Inl TypeError, R))"

lemma example_grow_fst:
  "fst (grow example_params (1/2) 1 [(1, map (\<lambda>i. [i]) [0, 1, 2])] empty_registry) =
     Inr [(1, [[0], [1], [2]]), (2, [[0, 1], [0, 2], [1, 2]]), (3, [[0, 1, 2]]), (4, [])]"
  by (simp add: example_simps)

text \<open>
  Claim C8 (amended). \<open>solve\<close> has no option that caps the size of the clusters:
  \<open>maxClusterSize\<close> is not among its parameters, and a call that passes it raises
  TypeError before the body runs. What bounds the growth is the data and the threshold:
  whenever the growth loop, started as \<open>solve\<close> starts it from the singletons of a list of
  indices, returns its generations, the last generation it built is empty, and every
  cluster of generation \<open>k\<close> consists of exactly \<open>k\<close> different indices of that list, so
  that a non-empty generation \<open>k\<close> has \<open>k\<close> at most the number of different indices.
\<close>

theorem growth_bound_without_cap:
  "''maxClusterSize'' \<notin> set solve_keywords \<and>
   (''maxClusterSize'' \<in> set keywords \<longrightarrow>
      call_solve keywords E X threshold cluster R priorLmbda numSamples meanFieldRef independentRef
        meanFieldPriorLmbda return_all = (Inl TypeError, R)) \<and>
   (grow P T 1 [(1, map (\<lambda>i. [i]) c)] R = (Inr clusters, R') \<longrightarrow>
      (\<exists>k. map_of clusters k = Some []) \<and>
      (\<forall>k gen. map_of clusters k = Some gen \<longrightarrow>
         (\<forall>cl\<in>set gen. length cl = k \<and> distinct cl \<and> set cl \<subseteq> set c) \<and>
         (gen \<noteq> [] \<longrightarrow> k \<le> card (set c))))"
proof (intro conjI impI)
  show no: "''maxClusterSize'' \<notin> set solve_keywords" by (simp add: solve_keywords_def)
  {
    assume "''maxClusterSize'' \<in> set keywords"
    then have "\<not> set keywords \<subseteq> set solve_keywords" using no by blast
    then show "call_solve keywords E X threshold cluster R priorLmbda numSamples meanFieldRef
        independentRef meanFieldPriorLmbda return_all = (Inl TypeError, R)"
      by (simp add: call_solve_def)
  }
  assume g: "grow P T 1 [(1, map (\<lambda>i. [i]) c)] R = (Inr clusters, R')"
  have ok: "gens_ok (set c) clusters" and last: "\<exists>k. map_of clusters k = Some []"
    using grow_gens_ok[OF g gens_ok_start] by blast+
  have b: "k \<le> card (set c)" if h: "map_of clusters k = Some gen" "gen \<noteq> []" for k gen
  proof -
    obtain cl where "cl \<in> set gen" using h(2) by (cases gen) auto
    then have cl: "length cl = k" "distinct cl" "set cl \<subseteq> set c"
      using ok h(1) unfolding gens_ok_def by blast+
    have "card (set cl) \<le> card (set c)" using cl(3) by (simp add: card_mono)
    then show ?thesis using cl(1,2) by (simp add: distinct_card)
  qed
  have a: "\<forall>cl\<in>set gen. length cl = k \<and> distinct cl \<and> set cl \<subseteq> set c"
    if "map_of clusters k = Some gen" for k gen
    using ok that unfolding gens_ok_def by blast
  show "\<exists>k. map_of clusters k = Some []" by (rule last)
  show "\<forall>k gen. map_of clusters k = Some gen \<longrightarrow>
         (\<forall>cl\<in>set gen. length cl = k \<and> distinct cl \<and> set cl \<subseteq> set c) \<and>
         (gen \<noteq> [] \<longrightarrow> k \<le> card (set c))"
  proof (intro allI impI conjI)
    fix k gen assume "map_of clusters k = Some gen"
    then show "\<forall>cl\<in>set gen. length cl = k \<and> distinct cl \<and> set cl \<subseteq> set c" by (rule a)
  next
    fix k gen assume "map_of clusters k = Some gen" "gen \<noteq> []"
    then show "k \<le> card (set c)" by (rule b)
  qed
qed

theorem growth_bound_without_cap_witness:
  "call_solve [''threshold'', ''maxClusterSize''] example_ext example_data (1/2) None empty_registry
     0 None True False None True = (Inl TypeError, empty_registry) \<and>
   (\<exists>clusters R'.
     grow example_params (1/2) 1 [(1, map (\<lambda>i. [i]) [0, 1, 2])] empty_registry
       = (Inr clusters, R') \<and>
     map_of clusters 3 = Some [[0, 1, 2]] \<and>
     (\<exists>k. map_of clusters k = Some []) \<and>
     (\<forall>k gen. map_of clusters k = Some gen \<longrightarrow>
        (\<forall>cl\<in>set gen. length cl = k \<and> distinct cl \<and> set cl \<subseteq> set [0, 1, 2]) \<and>
        (gen \<noteq> [] \<longrightarrow> k \<le> card (set [0 :: nat, 1, 2]))))"
proof -
  define final :: "(nat \<times> cluster list) list" where
    "final = [(1, [[0], [1], [2]]), (2, [[0, 1], [0, 2], [1, 2]]), (3, [[0, 1, 2]]), (4, [])]"
  have k: "''maxClusterSize'' \<in> set [''threshold'', ''maxClusterSize'']" by simp
  have a: "call_solve [''threshold'', ''maxClusterSize''] example_ext example_data (1/2) None
     empty_registry 0 None True False None True = (Inl TypeError, empty_registry)"
    by (rule mp[OF conjunct1[OF conjunct2[OF growth_bound_without_cap]] k])
  obtain R' where
    g: "grow example_params (1/2) 1 [(1, map (\<lambda>i. [i]) [0, 1, 2])] empty_registry
          = (Inr final, R')"
    using example_grow_fst unfolding final_def
    by (cases "grow example_params (1/2) 1 [(1, map (\<lambda>i. [i]) [0, 1, 2])] empty_registry") auto
  have m: "map_of final 3 = Some [[0, 1, 2]]"
    unfolding final_def by simp
  have t: "(\<exists>k. map_of final k = Some []) \<and>
     (\<forall>k gen. map_of final k = Some gen \<longrightarrow>
        (\<forall>cl\<in>set gen. length cl = k \<and> distinct cl \<and> set cl \<subseteq> set [0, 1, 2]) \<and>
        (gen \<noteq> [] \<longrightarrow> k \<le> card (set [0 :: nat, 1, 2])))"
    by (rule mp[OF conjunct2[OF conjunct2[OF growth_bound_without_cap]] g])
  show ?thesis
    by (rule conjI[OF a], rule exI[of _ final], rule exI[of _ R'], rule conjI[OF g],
        rule conjI[OF m], rule t)
qed

text \<open>
  Claim C8 as stated fails: a call of \<open>solve\<close> that configures \<open>maxClusterSize\<close> raises
  TypeError, and nothing stops the growth before the data and the threshold do. In the
  example with three variables the growth loop goes on to the generation of size 3,
  which holds the cluster of all three indices.
\<close>

theorem solve_no_size_cap_counterexample:
  "''maxClusterSize'' \<notin> set solve_keywords \<and>
   call_solve [''maxClusterSize''] example_ext example_data (1/2) None empty_registry 0 None
     True False None True = (Inl TypeError, empty_registry) \<and>
   (case fst (grow example_params (1/2) 1 [(1, map (\<lambda>i. [i]) [0, 1, 2])] empty_registry) of
      Inr clusters \<Rightarrow> map_of clusters 3 = Some [[0, 1, 2]]
    | Inl e \<Rightarrow> False)"
proof -
  have a: "''maxClusterSize'' \<notin> set solve_keywords" by (simp add: solve_keywords_def)
  then have b: "call_solve [''maxClusterSize''] example_ext example_data (1/2) None empty_registry
     0 None True False None True = (Inl TypeError, empty_registry)"
    by (simp add: call_solve_def)
  have c: "(case fst (grow example_params (1/2) 1 [(1, map (\<lambda>i. [i]) [0, 1, 2])] empty_registry) of
      Inr clusters \<Rightarrow> map_of clusters 3 = Some [[0, 1, 2]]
    | Inl e \<Rightarrow> False)"
    unfolding example_grow_fst by simp
  show ?thesis using a b c by (intro conjI)
qed

end
